theory Spec2Isabelle
  imports Main "HOL-Library.Word"
begin

unbundle bit_operations_syntax

section \<open>Machine integers and page arithmetic (AddressSpace.cpp, anonymous namespace)\<close>

type_synonym u64 = "64 word"
type_synonym u8 = "8 word"

definition kPageSize :: u64 where
  "kPageSize = 4096"

definition kPageShift :: u64 where
  "kPageShift = kPageSize - 1"

definition kPageMask :: u64 where
  "kPageMask = NOT kPageShift"

definition AlignDownToPage :: "u64 \<Rightarrow> u64" where
  "AlignDownToPage addr = addr AND kPageMask"

definition RoundUpToPage :: "u64 \<Rightarrow> u64" where
  "RoundUpToPage sz = (sz + kPageShift) AND kPageMask"

text \<open>\<open>GetAddressMask\<close> reads \<open>arch->address_size\<close>; the architecture is represented by that
  number.\<close>

definition GetAddressMask :: "nat \<Rightarrow> u64" where
  "GetAddressMask address_size = (if address_size = 32 then 0xFFFFFFFF else 0xFFFFFFFFFFFFFFFF)"

text \<open>Fatal \<open>CHECK\<close> failures abort the process; they are a value of the model.\<close>

datatype error = CheckFailed

section \<open>Mapped ranges\<close>

text \<open>Modelled from the spec: the class \<open>MappedRange\<close> (MappedRange.cpp and its header are not
  among the sources). Section 4.1 of the specification gives its operations: \<open>read\<close> and
  \<open>write\<close> succeed iff \<open>base \<le> addr < limit\<close> and the range is not a tombstone; the pointer
  accessors give a pointer into the backing buffer or null; \<open>contains\<close>; \<open>copy\<close> gives a
  sub-range; the code version is a lazily computed, cached digest that
  \<open>invalidate_code_version\<close> discards. Bytes are kept by guest address, so that a sub-range
  keeps the bytes of its addresses. The digest function is a parameter.\<close>

record MappedRange =
  base_address :: u64
  limit_address :: u64
  is_valid :: bool
  bytes_at :: "u64 \<Rightarrow> u8"
  code_version :: "u64 option"

definition Create :: "u64 \<Rightarrow> u64 \<Rightarrow> MappedRange" where
  "Create base limit =
     \<lparr>base_address = base, limit_address = limit, is_valid = True,
      bytes_at = (\<lambda>_. 0), code_version = None\<rparr>"

definition CreateInvalid :: "u64 \<Rightarrow> u64 \<Rightarrow> MappedRange" where
  "CreateInvalid base limit =
     \<lparr>base_address = base, limit_address = limit, is_valid = False,
      bytes_at = (\<lambda>_. 0), code_version = None\<rparr>"

definition Contains :: "MappedRange \<Rightarrow> u64 \<Rightarrow> bool" where
  "Contains r addr = (base_address r \<le> addr \<and> addr < limit_address r)"

definition Read :: "MappedRange \<Rightarrow> u64 \<Rightarrow> u8 option" where
  "Read r addr = (if is_valid r \<and> Contains r addr then Some (bytes_at r addr) else None)"

definition Write :: "MappedRange \<Rightarrow> u64 \<Rightarrow> u8 \<Rightarrow> MappedRange option" where
  "Write r addr val =
     (if is_valid r \<and> Contains r addr then Some (r\<lparr>bytes_at := (bytes_at r)(addr := val)\<rparr>)
      else None)"

text \<open>A non-null pointer is represented by the guest address it points at.\<close>

definition ToReadOnlyVirtualAddress :: "MappedRange \<Rightarrow> u64 \<Rightarrow> u64 option" where
  "ToReadOnlyVirtualAddress r addr = (if is_valid r \<and> Contains r addr then Some addr else None)"

definition ToReadWriteVirtualAddress :: "MappedRange \<Rightarrow> u64 \<Rightarrow> u64 option" where
  "ToReadWriteVirtualAddress r addr = (if is_valid r \<and> Contains r addr then Some addr else None)"

definition Copy :: "MappedRange \<Rightarrow> u64 \<Rightarrow> u64 \<Rightarrow> MappedRange" where
  "Copy r new_base new_limit =
     r\<lparr>base_address := new_base, limit_address := new_limit, code_version := None\<rparr>"

definition InvalidateCodeVersion :: "MappedRange \<Rightarrow> MappedRange" where
  "InvalidateCodeVersion r = r\<lparr>code_version := None\<rparr>"

definition ComputeCodeVersion_range ::
  "(MappedRange \<Rightarrow> u64) \<Rightarrow> MappedRange \<Rightarrow> u64 \<times> MappedRange" where
  "ComputeCodeVersion_range digest r =
     (case code_version r of
        Some v \<Rightarrow> (v, r)
      | None \<Rightarrow> (digest r, r\<lparr>code_version := Some (digest r)\<rparr>))"

text \<open>Direct access through a pointer (\<open>*ptr = val\<close>, \<open>*val_out = *ptr\<close>): the bytes of the
  scalar in the order of the host's memory.\<close>

fun store_bytes :: "(u64 \<Rightarrow> u8) \<Rightarrow> u64 \<Rightarrow> u8 list \<Rightarrow> (u64 \<Rightarrow> u8)" where
  "store_bytes m ptr [] = m"
| "store_bytes m ptr (b # bs) = store_bytes (m(ptr := b)) (ptr + 1) bs"

fun load_bytes :: "(u64 \<Rightarrow> u8) \<Rightarrow> u64 \<Rightarrow> nat \<Rightarrow> u8 list" where
  "load_bytes m ptr 0 = []"
| "load_bytes m ptr (Suc n) = m ptr # load_bytes m (ptr + 1) n"

section \<open>The address space\<close>

text \<open>Ranges are shared objects (\<open>MemoryMapPtr\<close>): the vector \<open>maps\<close>, both page indices and both
  caches hold pointers to them. \<open>heap\<close> is the store of range objects, a pointer is a key of
  it, and \<open>next_ptr\<close> is the next unused key.\<close>

record AddressSpace =
  maps :: "nat list"
  page_to_map :: "u64 \<Rightarrow> nat option"
  wnx_page_to_map :: "u64 \<Rightarrow> nat option"
  last_map_cache :: "nat \<Rightarrow> nat option"
  wnx_last_map_cache :: "nat \<Rightarrow> nat option"
  min_addr :: u64
  addr_mask :: u64
  invalid :: nat
  page_is_readable :: "u64 set"
  page_is_writable :: "u64 set"
  page_is_executable :: "u64 set"
  trace_heads :: "u64 set"
  is_dead :: bool
  heap :: "nat \<Rightarrow> MappedRange"
  next_ptr :: nat

text \<open>Modelled from the spec: \<open>kRangeCacheSize\<close> and \<open>kRangeCacheMask\<close> of AddressSpace.h
  (not among the sources); the caches are direct-mapped and keyed by bits 12 to 17 of the
  page address, with one more slot, at index \<open>kRangeCacheSize\<close>, for the last range found.\<close>

definition kRangeCacheSize :: nat where
  "kRangeCacheSize = 64"

definition kRangeCacheMask :: u64 where
  "kRangeCacheMask = 63"

definition MarkAsTraceHead :: "AddressSpace \<Rightarrow> u64 \<Rightarrow> AddressSpace" where
  "MarkAsTraceHead s pc = s\<lparr>trace_heads := insert pc (trace_heads s)\<rparr>"

definition IsMarkedTraceHead :: "AddressSpace \<Rightarrow> u64 \<Rightarrow> bool" where
  "IsMarkedTraceHead s pc = (pc \<in> trace_heads s)"

definition Kill :: "AddressSpace \<Rightarrow> AddressSpace" where
  "Kill s = s\<lparr>maps := [], page_to_map := (\<lambda>_. None), is_dead := True,
              last_map_cache := (\<lambda>_. None), wnx_last_map_cache := (\<lambda>_. None)\<rparr>"

definition IsDead :: "AddressSpace \<Rightarrow> bool" where
  "IsDead s = is_dead s"

definition CanRead :: "AddressSpace \<Rightarrow> u64 \<Rightarrow> bool" where
  "CanRead s addr = (AlignDownToPage (addr AND addr_mask s) \<in> page_is_readable s)"

definition CanWrite :: "AddressSpace \<Rightarrow> u64 \<Rightarrow> bool" where
  "CanWrite s addr = (AlignDownToPage (addr AND addr_mask s) \<in> page_is_writable s)"

definition CanExecute :: "AddressSpace \<Rightarrow> u64 \<Rightarrow> bool" where
  "CanExecute s addr = (AlignDownToPage (addr AND addr_mask s) \<in> page_is_executable s)"

definition CanReadAligned :: "AddressSpace \<Rightarrow> u64 \<Rightarrow> bool" where
  "CanReadAligned s addr = (addr \<in> page_is_readable s)"

definition CanWriteAligned :: "AddressSpace \<Rightarrow> u64 \<Rightarrow> bool" where
  "CanWriteAligned s addr = (addr \<in> page_is_writable s)"

definition CanExecuteAligned :: "AddressSpace \<Rightarrow> u64 \<Rightarrow> bool" where
  "CanExecuteAligned s addr = (addr \<in> page_is_executable s)"

subsection \<open>Range lookup through the caches\<close>

text \<open>The three steps of a lookup, last first: the page index, the direct-mapped slot, the slot
  of the last range found. A null pointer in a slot is \<open>None\<close>.\<close>

definition FindRangeAligned_index :: "AddressSpace \<Rightarrow> u64 \<Rightarrow> nat \<Rightarrow> nat \<times> AddressSpace" where
  "FindRangeAligned_index s page_addr cache_index =
     (case page_to_map s page_addr of
        Some p \<Rightarrow>
          (p, s\<lparr>last_map_cache :=
                 (last_map_cache s)(kRangeCacheSize := Some p, cache_index := Some p)\<rparr>)
      | None \<Rightarrow> (invalid s, s))"

definition FindRangeAligned_slot :: "AddressSpace \<Rightarrow> u64 \<Rightarrow> nat \<times> AddressSpace" where
  "FindRangeAligned_slot s page_addr =
     (let cache_index = unat (drop_bit 12 page_addr AND kRangeCacheMask) in
      case last_map_cache s cache_index of
        Some last_range \<Rightarrow>
          if Contains (heap s last_range) page_addr
          then (last_range,
                s\<lparr>last_map_cache := (last_map_cache s)(kRangeCacheSize := Some last_range)\<rparr>)
          else FindRangeAligned_index s page_addr cache_index
      | None \<Rightarrow> FindRangeAligned_index s page_addr cache_index)"

definition FindRangeAligned :: "AddressSpace \<Rightarrow> u64 \<Rightarrow> nat \<times> AddressSpace" where
  "FindRangeAligned s page_addr =
     (case last_map_cache s kRangeCacheSize of
        Some last_range \<Rightarrow>
          if Contains (heap s last_range) page_addr then (last_range, s)
          else FindRangeAligned_slot s page_addr
      | None \<Rightarrow> FindRangeAligned_slot s page_addr)"

definition FindRange :: "AddressSpace \<Rightarrow> u64 \<Rightarrow> nat \<times> AddressSpace" where
  "FindRange s addr = FindRangeAligned s (AlignDownToPage addr)"

definition FindWNXRangeAligned_index :: "AddressSpace \<Rightarrow> u64 \<Rightarrow> nat \<Rightarrow> nat \<times> AddressSpace" where
  "FindWNXRangeAligned_index s page_addr cache_index =
     (case wnx_page_to_map s page_addr of
        Some p \<Rightarrow>
          (p, s\<lparr>wnx_last_map_cache :=
                 (wnx_last_map_cache s)(kRangeCacheSize := Some p, cache_index := Some p)\<rparr>)
      | None \<Rightarrow> (invalid s, s))"

definition FindWNXRangeAligned_slot :: "AddressSpace \<Rightarrow> u64 \<Rightarrow> nat \<times> AddressSpace" where
  "FindWNXRangeAligned_slot s page_addr =
     (let cache_index = unat (drop_bit 12 page_addr AND kRangeCacheMask) in
      case wnx_last_map_cache s cache_index of
        Some last_range \<Rightarrow>
          if Contains (heap s last_range) page_addr
          then (last_range,
                s\<lparr>wnx_last_map_cache :=
                    (wnx_last_map_cache s)(kRangeCacheSize := Some last_range)\<rparr>)
          else FindWNXRangeAligned_index s page_addr cache_index
      | None \<Rightarrow> FindWNXRangeAligned_index s page_addr cache_index)"

definition FindWNXRangeAligned :: "AddressSpace \<Rightarrow> u64 \<Rightarrow> nat \<times> AddressSpace" where
  "FindWNXRangeAligned s page_addr =
     (case wnx_last_map_cache s kRangeCacheSize of
        Some last_range \<Rightarrow>
          if Contains (heap s last_range) page_addr then (last_range, s)
          else FindWNXRangeAligned_slot s page_addr
      | None \<Rightarrow> FindWNXRangeAligned_slot s page_addr)"

definition FindWNXRange :: "AddressSpace \<Rightarrow> u64 \<Rightarrow> nat \<times> AddressSpace" where
  "FindWNXRange s addr = FindWNXRangeAligned s (AlignDownToPage addr)"

subsection \<open>Byte-wise reads and writes\<close>

text \<open>The inner loop \<open>while (addr < next_end_addr) range.Read(addr++, out_stream++)\<close>. The
  result is the success flag, the address reached and the bytes stored through
  \<open>out_stream\<close> so far.\<close>

function read_bytes :: "MappedRange \<Rightarrow> u64 \<Rightarrow> u64 \<Rightarrow> u8 list \<Rightarrow> bool \<times> u64 \<times> u8 list" where
  "read_bytes rng next_end_addr addr out =
     (if addr < next_end_addr then
        (case Read rng addr of
           None \<Rightarrow> (False, addr + 1, out)
         | Some b \<Rightarrow> read_bytes rng next_end_addr (addr + 1) (out @ [b]))
      else (True, addr, out))"
  by pat_completeness auto
termination
proof (relation "measure (\<lambda>(rng, next_end_addr, addr, out). unat next_end_addr - unat addr)")
  show "wf (measure (\<lambda>(rng, next_end_addr, addr, out). unat next_end_addr - unat addr))"
    by simp
next
  fix rng :: MappedRange and next_end_addr addr :: u64 and out :: "u8 list" and b :: u8
  assume lt: "addr < next_end_addr"
  then have less: "unat addr < unat next_end_addr"
    by (simp add: word_less_nat_alt)
  moreover have "unat next_end_addr < 2 ^ LENGTH(64)"
    by (rule unsigned_less)
  ultimately have "unat addr + unat (1 :: u64) < 2 ^ LENGTH(64)"
    by simp
  then have "unat (addr + 1) = unat addr + unat (1 :: u64)"
    by (simp only: unat_add_lem)
  with less show "((rng, next_end_addr, addr + 1, out @ [b]), (rng, next_end_addr, addr, out))
      \<in> measure (\<lambda>(rng, next_end_addr, addr, out). unat next_end_addr - unat addr)"
    by simp
qed

text \<open>\<open>TryRead(addr, val_out, size)\<close>: the loop over the pages. It is written as the source
  has it, with the wrap-around of 64-bit addition; where the loop of the source does not
  end, the value is \<open>None\<close>.\<close>

partial_function (option) TryRead_pages ::
  "u64 \<Rightarrow> u64 \<Rightarrow> u64 \<Rightarrow> u8 list \<Rightarrow> AddressSpace \<Rightarrow> (bool \<times> u8 list \<times> AddressSpace) option" where
  "TryRead_pages page_addr end_addr addr out s =
     (if page_addr < end_addr then
        (case FindRangeAligned s page_addr of
           (rng, s1) \<Rightarrow>
             (case read_bytes (heap s1 rng) (min end_addr (page_addr + kPageSize)) addr out of
                (ok, addr', out') \<Rightarrow>
                  if ok then TryRead_pages (page_addr + kPageSize) end_addr addr' out' s1
                  else Some (False, out', s1)))
      else Some (True, out, s))"

definition TryRead :: "AddressSpace \<Rightarrow> u64 \<Rightarrow> u64 \<Rightarrow> (bool \<times> u8 list \<times> AddressSpace) option" where
  "TryRead s vaddr sz =
     (let addr = vaddr AND addr_mask s in
      TryRead_pages (AlignDownToPage addr) (addr + sz) addr [] s)"

text \<open>The inner loop \<open>while (addr < next_end_addr) range.Write(addr++, *in_stream++)\<close>. The
  buffer \<open>val\<close> of \<open>size\<close> bytes is a list and \<open>size\<close> is its length, so the loop never
  reaches the first equation with \<open>addr < next_end_addr\<close>: fewer than \<open>size\<close> bytes have
  been taken whenever \<open>addr < end_addr\<close>.\<close>

fun write_bytes ::
  "nat \<Rightarrow> u64 \<Rightarrow> u64 \<Rightarrow> u8 list \<Rightarrow> AddressSpace \<Rightarrow> bool \<times> u64 \<times> u8 list \<times> AddressSpace" where
  "write_bytes rng next_end_addr addr [] s = (\<not> addr < next_end_addr, addr, [], s)"
| "write_bytes rng next_end_addr addr (b # in_stream) s =
     (if addr < next_end_addr then
        (case Write (heap s rng) addr b of
           None \<Rightarrow> (False, addr + 1, in_stream, s)
         | Some r \<Rightarrow>
             write_bytes rng next_end_addr (addr + 1) in_stream
               (s\<lparr>heap := (heap s)(rng := r)\<rparr>))
      else (True, addr, b # in_stream, s))"

text \<open>\<open>FLAGS_version_code\<close> is the first argument.\<close>

definition smc_check :: "bool \<Rightarrow> nat \<Rightarrow> u64 \<Rightarrow> AddressSpace \<Rightarrow> AddressSpace" where
  "smc_check version_code rng page_addr s =
     (if version_code \<and> CanExecuteAligned s page_addr
      then s\<lparr>heap := (heap s)(rng := InvalidateCodeVersion (heap s rng)),
             trace_heads := {}\<rparr>
      else s)"

partial_function (option) TryWrite_pages ::
  "bool \<Rightarrow> u64 \<Rightarrow> u64 \<Rightarrow> u64 \<Rightarrow> u8 list \<Rightarrow> AddressSpace \<Rightarrow> (bool \<times> AddressSpace) option" where
  "TryWrite_pages version_code page_addr end_addr addr in_stream s =
     (if page_addr < end_addr then
        if \<not> CanWriteAligned s page_addr then Some (False, s)
        else
          (case FindRangeAligned s page_addr of
             (rng, s1) \<Rightarrow>
               (case write_bytes rng (min end_addr (page_addr + kPageSize)) addr in_stream
                       (smc_check version_code rng page_addr s1) of
                  (ok, addr', in_stream', s2) \<Rightarrow>
                    if ok
                    then TryWrite_pages version_code (page_addr + kPageSize) end_addr addr'
                           in_stream' s2
                    else Some (False, s2)))
      else Some (True, s))"

definition TryWrite :: "bool \<Rightarrow> AddressSpace \<Rightarrow> u64 \<Rightarrow> u8 list \<Rightarrow> (bool \<times> AddressSpace) option" where
  "TryWrite version_code s vaddr val =
     (let addr = vaddr AND addr_mask s in
      TryWrite_pages version_code (AlignDownToPage addr) (addr + of_nat (length val)) addr val s)"

subsection \<open>Typed accessors\<close>

text \<open>\<open>TryRead(uint64_t, uint8_t *)\<close>.\<close>

definition TryRead_u8 :: "AddressSpace \<Rightarrow> u64 \<Rightarrow> u8 option \<times> AddressSpace" where
  "TryRead_u8 s vaddr =
     (let addr = vaddr AND addr_mask s in
      case FindRange s addr of (rng, s1) \<Rightarrow> (Read (heap s1 rng) addr, s1))"

text \<open>\<open>MAKE_TRY_READ(type)\<close>, for a type of \<open>n\<close> bytes; the value read is given by its bytes.\<close>

definition TryRead_typed ::
  "nat \<Rightarrow> AddressSpace \<Rightarrow> u64 \<Rightarrow> (bool \<times> u8 list \<times> AddressSpace) option" where
  "TryRead_typed n s vaddr =
     (let addr = vaddr AND addr_mask s in
      case FindRange s addr of
        (rng, s1) \<Rightarrow>
          (case ToReadOnlyVirtualAddress (heap s1 rng) addr of
             None \<Rightarrow> Some (False, [], s1)
           | Some ptr \<Rightarrow>
               let end_addr = addr + of_nat n - 1 in
               if base_address (heap s1 rng) \<le> addr \<and> end_addr < limit_address (heap s1 rng)
                  \<and> AlignDownToPage addr = AlignDownToPage end_addr
               then Some (True, load_bytes (bytes_at (heap s1 rng)) ptr n, s1)
               else TryRead s1 addr (of_nat n)))"

text \<open>\<open>TryWrite(uint64_t, uint8_t)\<close>.\<close>

definition TryWrite_u8 :: "bool \<Rightarrow> AddressSpace \<Rightarrow> u64 \<Rightarrow> u8 \<Rightarrow> (bool \<times> AddressSpace) option" where
  "TryWrite_u8 version_code s vaddr val =
     (let addr = vaddr AND addr_mask s in
      case FindWNXRange s addr of
        (rng, s1) \<Rightarrow>
          (case Write (heap s1 rng) addr val of
             Some r \<Rightarrow> Some (True, s1\<lparr>heap := (heap s1)(rng := r)\<rparr>)
           | None \<Rightarrow> TryWrite version_code s1 addr [val]))"

text \<open>\<open>MAKE_TRY_WRITE(type)\<close>; the value is given by its bytes, \<open>sizeof(type)\<close> of them.\<close>

definition TryWrite_typed ::
  "bool \<Rightarrow> AddressSpace \<Rightarrow> u64 \<Rightarrow> u8 list \<Rightarrow> (bool \<times> AddressSpace) option" where
  "TryWrite_typed version_code s vaddr val =
     (let addr = vaddr AND addr_mask s in
      case FindWNXRange s addr of
        (rng, s1) \<Rightarrow>
          (case ToReadWriteVirtualAddress (heap s1 rng) addr of
             Some ptr \<Rightarrow>
               let end_addr = addr + of_nat (length val) - 1 in
               if base_address (heap s1 rng) \<le> addr \<and> end_addr < limit_address (heap s1 rng)
                  \<and> AlignDownToPage addr = AlignDownToPage end_addr
               then Some (True,
                      s1\<lparr>heap := (heap s1)(rng := (heap s1 rng)
                           \<lparr>bytes_at := store_bytes (bytes_at (heap s1 rng)) ptr val\<rparr>)\<rparr>)
               else TryWrite version_code s1 addr val
           | None \<Rightarrow> TryWrite version_code s1 addr val))"

text \<open>The bytes of a scalar in the memory of the host, which is little-endian.\<close>

fun le_bytes :: "nat \<Rightarrow> 'a::len word \<Rightarrow> u8 list" where
  "le_bytes 0 v = []"
| "le_bytes (Suc n) v = ucast v # le_bytes n (drop_bit 8 v)"

fun le_word :: "u8 list \<Rightarrow> 'a::len word" where
  "le_word [] = 0"
| "le_word (b # bs) = ucast b OR push_bit 8 (le_word bs)"

definition TryWrite_u16 :: "bool \<Rightarrow> AddressSpace \<Rightarrow> u64 \<Rightarrow> 16 word \<Rightarrow> (bool \<times> AddressSpace) option" where
  "TryWrite_u16 version_code s addr val = TryWrite_typed version_code s addr (le_bytes 2 val)"

definition TryWrite_u32 :: "bool \<Rightarrow> AddressSpace \<Rightarrow> u64 \<Rightarrow> 32 word \<Rightarrow> (bool \<times> AddressSpace) option" where
  "TryWrite_u32 version_code s addr val = TryWrite_typed version_code s addr (le_bytes 4 val)"

definition TryWrite_u64 :: "bool \<Rightarrow> AddressSpace \<Rightarrow> u64 \<Rightarrow> 64 word \<Rightarrow> (bool \<times> AddressSpace) option" where
  "TryWrite_u64 version_code s addr val = TryWrite_typed version_code s addr (le_bytes 8 val)"

text \<open>The typed reads give the flag and, when it is true, the value stored in \<open>*val_out\<close>.\<close>

definition TryRead_u32 :: "AddressSpace \<Rightarrow> u64 \<Rightarrow> (bool \<times> 32 word option \<times> AddressSpace) option" where
  "TryRead_u32 s addr =
     map_option (\<lambda>(ok, out, s'). (ok, if ok then Some (le_word out) else None, s'))
       (TryRead_typed 4 s addr)"

text \<open>\<open>TryReadExecutable\<close>.\<close>

definition TryReadExecutable :: "AddressSpace \<Rightarrow> u64 \<Rightarrow> u8 option \<times> AddressSpace" where
  "TryReadExecutable s pc =
     (let addr = pc AND addr_mask s; page_addr = AlignDownToPage addr in
      case FindRangeAligned s page_addr of
        (rng, s1) \<Rightarrow>
          (case Read (heap s1 rng) addr of
             None \<Rightarrow> (None, s1)
           | Some b \<Rightarrow> (if CanExecuteAligned s1 page_addr then Some b else None, s1)))"

subsection \<open>Removing a range from the list of maps\<close>

text \<open>\<open>map->Copy(...)\<close> makes a new range object.\<close>

definition alloc :: "AddressSpace \<Rightarrow> MappedRange \<Rightarrow> nat \<times> AddressSpace" where
  "alloc s r = (next_ptr s, s\<lparr>heap := (heap s)(next_ptr s := r), next_ptr := next_ptr s + 1\<rparr>)"

fun RemoveRange_loop ::
  "nat list \<Rightarrow> u64 \<Rightarrow> u64 \<Rightarrow> nat list \<Rightarrow> AddressSpace \<Rightarrow> nat list \<times> AddressSpace" where
  "RemoveRange_loop [] base limit new_ranges s = (new_ranges, s)"
| "RemoveRange_loop (m # ranges) base limit new_ranges s =
     (let map_base_address = base_address (heap s m);
          map_limit_address = limit_address (heap s m) in
      if map_limit_address \<le> base \<or> map_base_address \<ge> limit
      then RemoveRange_loop ranges base limit (new_ranges @ [m]) s
      else if map_base_address \<ge> base \<and> map_limit_address \<le> limit
      then RemoveRange_loop ranges base limit new_ranges s
      else if map_base_address < base \<and> map_limit_address > limit
      then
        (case alloc s (Copy (heap s m) map_base_address base) of
           (low, s1) \<Rightarrow>
             (case alloc s1 (Copy (heap s1 m) limit map_limit_address) of
                (high, s2) \<Rightarrow> RemoveRange_loop ranges base limit (new_ranges @ [low, high]) s2))
      else if map_base_address = base
      then
        (case alloc s (Copy (heap s m) limit map_limit_address) of
           (high, s1) \<Rightarrow> RemoveRange_loop ranges base limit (new_ranges @ [high]) s1)
      else
        (case alloc s (Copy (heap s m) map_base_address base) of
           (low, s1) \<Rightarrow> RemoveRange_loop ranges base limit (new_ranges @ [low]) s1))"

definition RemoveRange :: "nat list \<Rightarrow> u64 \<Rightarrow> u64 \<Rightarrow> AddressSpace \<Rightarrow> nat list \<times> AddressSpace" where
  "RemoveRange ranges base limit s = RemoveRange_loop ranges base limit [] s"

subsection \<open>Permissions and the page indices\<close>

text \<open>The loop over the pages of one valid map in \<open>CreatePageToRangeMap\<close>.\<close>

definition index_page :: "nat \<Rightarrow> u64 \<Rightarrow> AddressSpace \<Rightarrow> AddressSpace" where
  "index_page m addr s =
     (let can_read = CanReadAligned s addr;
          can_write = CanWriteAligned s addr;
          can_exec = CanExecuteAligned s addr;
          s1 = (if can_read \<or> can_write \<or> can_exec
                then s\<lparr>page_to_map := (page_to_map s)(addr := Some m)\<rparr> else s)
      in if can_write \<and> \<not> can_exec
         then s1\<lparr>wnx_page_to_map := (wnx_page_to_map s1)(addr := Some m)\<rparr> else s1)"

partial_function (option) index_pages :: "nat \<Rightarrow> u64 \<Rightarrow> u64 \<Rightarrow> AddressSpace \<Rightarrow> AddressSpace option" where
  "index_pages m addr limit s =
     (if addr < limit
      then index_pages m (addr + kPageSize) limit (index_page m addr s)
      else Some s)"

fun index_maps :: "nat list \<Rightarrow> AddressSpace \<Rightarrow> AddressSpace option" where
  "index_maps [] s = Some s"
| "index_maps (m # ms) s =
     (if \<not> is_valid (heap s m) then index_maps ms s
      else
        Option.bind
          (index_pages m (base_address (heap s m)) (limit_address (heap s m))
             (s\<lparr>min_addr := min (min_addr s) (base_address (heap s m))\<rparr>))
          (index_maps ms))"

text \<open>\<open>std::sort\<close> orders the maps by base address; it does not say in which order it leaves
  maps of equal base, and the model keeps them in the order they had.\<close>

definition CreatePageToRangeMap :: "AddressSpace \<Rightarrow> AddressSpace option" where
  "CreatePageToRangeMap s =
     (let s1 = s\<lparr>page_to_map := (\<lambda>_. None), wnx_page_to_map := (\<lambda>_. None),
                 last_map_cache := (\<lambda>_. None), wnx_last_map_cache := (\<lambda>_. None)\<rparr>;
          s2 = s1\<lparr>maps := sort_key (\<lambda>p. base_address (heap s1 p)) (maps s1)\<rparr>;
          s3 = s2\<lparr>min_addr := 0xFFFFFFFFFFFFFFFF\<rparr>
      in index_maps (maps s3) s3)"

definition set_permission :: "bool \<Rightarrow> u64 \<Rightarrow> u64 set \<Rightarrow> u64 set" where
  "set_permission allowed addr pages = (if allowed then insert addr pages else pages - {addr})"

partial_function (option) SetPermissions_loop ::
  "u64 \<Rightarrow> u64 \<Rightarrow> bool \<Rightarrow> bool \<Rightarrow> bool \<Rightarrow> AddressSpace \<Rightarrow> AddressSpace option" where
  "SetPermissions_loop addr limit can_read can_write can_exec s =
     (if addr < limit
      then SetPermissions_loop (addr + kPageSize) limit can_read can_write can_exec
             (s\<lparr>page_is_readable := set_permission can_read addr (page_is_readable s),
                page_is_writable := set_permission can_write addr (page_is_writable s),
                page_is_executable := set_permission can_exec addr (page_is_executable s)\<rparr>)
      else Some s)"

definition SetPermissions ::
  "AddressSpace \<Rightarrow> u64 \<Rightarrow> u64 \<Rightarrow> bool \<Rightarrow> bool \<Rightarrow> bool \<Rightarrow> AddressSpace option" where
  "SetPermissions s vbase sz can_read can_write can_exec =
     (let base = AlignDownToPage vbase; limit = base + RoundUpToPage sz in
      Option.bind (SetPermissions_loop base limit can_read can_write can_exec s)
        CreatePageToRangeMap)"

subsection \<open>Construction, mapping and unmapping\<close>

text \<open>\<open>AddressSpace(const remill::Arch *)\<close>. The sentinel \<open>invalid\<close> is the object at pointer 1.\<close>

definition AddressSpace_new :: "nat \<Rightarrow> AddressSpace option" where
  "AddressSpace_new address_size =
     (let mask = GetAddressMask address_size in
      CreatePageToRangeMap
        \<lparr>maps = [1], page_to_map = (\<lambda>_. None), wnx_page_to_map = (\<lambda>_. None),
         last_map_cache = (\<lambda>_. None), wnx_last_map_cache = (\<lambda>_. None),
         min_addr = 0xFFFFFFFFFFFFFFFF, addr_mask = mask, invalid = 1,
         page_is_readable = {}, page_is_writable = {}, page_is_executable = {},
         trace_heads = {}, is_dead = False,
         heap = (\<lambda>_. CreateInvalid 0 mask), next_ptr = 2\<rparr>)"

text \<open>\<open>CreateMap\<close>; \<open>name\<close> and \<open>offset\<close> only label the new range and are left out. The
  result is the pointer returned (\<open>maps.back()\<close>, or null in a dead space) and the new state.\<close>

definition CreateMap ::
  "AddressSpace \<Rightarrow> u64 \<Rightarrow> u64 \<Rightarrow> (error + nat option \<times> AddressSpace) option" where
  "CreateMap s vbase sz =
     (let base = AlignDownToPage vbase;
          limit = min (base + RoundUpToPage sz) (addr_mask s) in
      if is_dead s then Some (Inr (None, s))
      else if base AND addr_mask s \<noteq> base then Some (Inl CheckFailed)
      else
        (case alloc s (Create base limit) of
           (new_map, s1) \<Rightarrow>
             if maps s1 = [] then Some (Inl CheckFailed)
             else
               (case RemoveRange (maps s1) base limit s1 of
                  (old_ranges, s2) \<Rightarrow>
                    map_option (\<lambda>s3. Inr (Some (last (maps s3)), s3))
                      (SetPermissions (s2\<lparr>maps := old_ranges @ [new_map]\<rparr>)
                         base (limit - base) True True False))))"

definition AddMap :: "AddressSpace \<Rightarrow> u64 \<Rightarrow> u64 \<Rightarrow> (error + AddressSpace) option" where
  "AddMap s vbase sz = map_option (map_sum id snd) (CreateMap s vbase sz)"

definition RemoveMap :: "AddressSpace \<Rightarrow> u64 \<Rightarrow> u64 \<Rightarrow> (error + AddressSpace) option" where
  "RemoveMap s vbase sz =
     (let base = AlignDownToPage vbase;
          limit = min (base + RoundUpToPage sz) (addr_mask s) in
      if is_dead s then Some (Inr s)
      else if base AND addr_mask s \<noteq> base then Some (Inl CheckFailed)
      else
        (case alloc s (CreateInvalid base limit) of
           (new_map, s1) \<Rightarrow>
             if maps s1 = [] then Some (Inl CheckFailed)
             else
               (case RemoveRange (maps s1) base limit s1 of
                  (old_ranges, s2) \<Rightarrow>
                    map_option Inr
                      (SetPermissions (s2\<lparr>maps := old_ranges @ [new_map]\<rparr>)
                         base (limit - base) False False False))))"

definition IsMapped :: "AddressSpace \<Rightarrow> u64 \<Rightarrow> bool" where
  "IsMapped s addr =
     (if is_dead s then False
      else case page_to_map s (AlignDownToPage addr) of
             None \<Rightarrow> False
           | Some p \<Rightarrow> is_valid (heap s p))"

subsection \<open>Finding a hole\<close>

text \<open>One turn of the loop of \<open>FindHole\<close> once \<open>high_base\<close> and \<open>low_limit\<close> are known:
  \<open>Break\<close> leaves the loop without a hole, \<open>Continue\<close> goes on with the next range,
  \<open>Found h\<close> is the hole, and \<open>Failed\<close> is a failed \<open>CHECK\<close>.\<close>

datatype hole_step = Break | Continue | Found u64 | Failed

definition FindHole_step :: "u64 \<Rightarrow> u64 \<Rightarrow> u64 \<Rightarrow> u64 \<Rightarrow> u64 \<Rightarrow> hole_step" where
  "FindHole_step mn mx sz high_base low_limit =
     (if high_base < mn then Break
      else if \<not> low_limit \<le> high_base then Failed
      else if low_limit \<ge> mx then Continue
      else
        let alloc_max = min mx high_base;
            alloc_min = max mn low_limit;
            avail_size = alloc_max - alloc_min in
        if avail_size < sz then Continue
        else
          let hole = alloc_max - sz in
          if \<not> hole \<ge> alloc_min then Failed else Found hole)"

fun FindHole_loop :: "(nat \<Rightarrow> MappedRange) \<Rightarrow> u64 \<Rightarrow> u64 \<Rightarrow> u64 \<Rightarrow> nat list \<Rightarrow> error + u64 option" where
  "FindHole_loop h mn mx sz [] = Inr None"
| "FindHole_loop h mn mx sz (range_high # rest) =
     (if \<not> is_valid (h range_high) then
        (case FindHole_step mn mx sz (limit_address (h range_high)) (base_address (h range_high)) of
           Break \<Rightarrow> Inr None
         | Continue \<Rightarrow> FindHole_loop h mn mx sz rest
         | Found hole \<Rightarrow> Inr (Some hole)
         | Failed \<Rightarrow> Inl CheckFailed)
      else
        (case rest of
           [] \<Rightarrow> Inr None
         | range_low # _ \<Rightarrow>
             (case FindHole_step mn mx sz (base_address (h range_high))
                     (limit_address (h range_low)) of
                Break \<Rightarrow> Inr None
              | Continue \<Rightarrow> FindHole_loop h mn mx sz rest
              | Found hole \<Rightarrow> Inr (Some hole)
              | Failed \<Rightarrow> Inl CheckFailed)))"

text \<open>\<open>FindHole\<close>: \<open>Inr (Some h)\<close> is \<open>true\<close> with \<open>*hole = h\<close>, \<open>Inr None\<close> is \<open>false\<close>.\<close>

definition FindHole :: "AddressSpace \<Rightarrow> u64 \<Rightarrow> u64 \<Rightarrow> u64 \<Rightarrow> error + u64 option" where
  "FindHole s mn mx sz =
     (if sz = 0 then Inr None
      else if AlignDownToPage mn \<ge> AlignDownToPage mx then Inr None
      else if RoundUpToPage sz > AlignDownToPage mx - AlignDownToPage mn then Inr None
      else FindHole_loop (heap s) (AlignDownToPage mn) (AlignDownToPage mx) (RoundUpToPage sz)
             (rev (maps s)))"

subsection \<open>Code versions\<close>

text \<open>\<open>ComputeCodeVersion\<close>; the arguments before the state are \<open>FLAGS_version_code\<close> and the
  digest of a range.\<close>

definition ComputeCodeVersion ::
  "bool \<Rightarrow> (MappedRange \<Rightarrow> u64) \<Rightarrow> AddressSpace \<Rightarrow> u64 \<Rightarrow> u64 \<times> AddressSpace" where
  "ComputeCodeVersion version_code digest s pc =
     (if version_code then
        (let masked_pc = pc AND addr_mask s in
         case FindRange s masked_pc of
           (rng, s1) \<Rightarrow>
             (case ComputeCodeVersion_range digest (heap s1 rng) of
                (v, r) \<Rightarrow> (v, s1\<lparr>heap := (heap s1)(rng := r)\<rparr>)))
      else (0, s))"

section \<open>The trace decoder (Decoder.cpp)\<close>

text \<open>\<open>remill::Instruction\<close> and \<open>remill::Arch\<close> belong to the lifting library; the decoder
  reads the category, the three successor addresses and the bytes of an instruction, and
  calls \<open>MaxInstructionSize\<close> and \<open>DecodeInstruction\<close>, which are taken as given.\<close>

datatype Category =
    kCategoryInvalid
  | kCategoryNormal
  | kCategoryNoOp
  | kCategoryError
  | kCategoryDirectJump
  | kCategoryIndirectJump
  | kCategoryDirectFunctionCall
  | kCategoryIndirectFunctionCall
  | kCategoryFunctionReturn
  | kCategoryConditionalBranch
  | kCategoryAsyncHyperCall
  | kCategoryConditionalAsyncHyperCall

record Instruction =
  category :: Category
  next_pc :: u64
  branch_taken_pc :: u64
  branch_not_taken_pc :: u64
  bytes :: "u8 list"

record Arch =
  MaxInstructionSize :: nat
  DecodeInstruction :: "u64 \<Rightarrow> u8 list \<Rightarrow> bool \<times> Instruction"

record TraceId =
  hash1 :: u64
  hash2 :: u64

text \<open>\<open>InstructionMap\<close> is a \<open>std::map\<close>: its entries are kept in ascending order of the
  program counter.\<close>

type_synonym InstructionMap = "(u64 \<times> Instruction) list"

record DecodedTrace =
  pc :: u64
  trace_code_version :: u64
  id :: TraceId
  instructions :: InstructionMap

definition map_count :: "InstructionMap \<Rightarrow> u64 \<Rightarrow> bool" where
  "map_count m k = (k \<in> fst ` set m)"

fun map_assign :: "InstructionMap \<Rightarrow> u64 \<Rightarrow> Instruction \<Rightarrow> InstructionMap" where
  "map_assign [] k v = [(k, v)]"
| "map_assign ((k', v') # m) k v =
     (if k < k' then (k, v) # (k', v') # m
      else if k = k' then (k, v) # m
      else (k', v') # map_assign m k v)"

text \<open>\<open>DecoderWorkList\<close> is a \<open>std::set<uint64_t>\<close>: an ascending list without repetition;
  \<open>begin()\<close> is its head.\<close>

type_synonym DecoderWorkList = "u64 list"

definition set_insert :: "u64 \<Rightarrow> DecoderWorkList \<Rightarrow> DecoderWorkList" where
  "set_insert x xs = (if x \<in> set xs then xs else insort x xs)"

fun ReadInstructionBytes_loop ::
  "nat \<Rightarrow> u64 \<Rightarrow> u64 \<Rightarrow> u8 list \<Rightarrow> AddressSpace \<Rightarrow> u8 list \<times> AddressSpace" where
  "ReadInstructionBytes_loop 0 ipc i instr_bytes s = (instr_bytes, s)"
| "ReadInstructionBytes_loop (Suc n) ipc i instr_bytes s =
     (case TryReadExecutable s (ipc + i) of
        (None, s1) \<Rightarrow> (instr_bytes, s1)
      | (Some byte, s1) \<Rightarrow> ReadInstructionBytes_loop n ipc (i + 1) (instr_bytes @ [byte]) s1)"

definition ReadInstructionBytes :: "Arch \<Rightarrow> AddressSpace \<Rightarrow> u64 \<Rightarrow> u8 list \<times> AddressSpace" where
  "ReadInstructionBytes arch s ipc = ReadInstructionBytes_loop (MaxInstructionSize arch) ipc 0 [] s"

definition AddSuccessorsToWorkList :: "Instruction \<Rightarrow> DecoderWorkList \<Rightarrow> DecoderWorkList" where
  "AddSuccessorsToWorkList inst work_list =
     (case category inst of
        kCategoryInvalid \<Rightarrow> work_list
      | kCategoryError \<Rightarrow> work_list
      | kCategoryIndirectJump \<Rightarrow> work_list
      | kCategoryFunctionReturn \<Rightarrow> work_list
      | kCategoryAsyncHyperCall \<Rightarrow> work_list
      | kCategoryIndirectFunctionCall \<Rightarrow> set_insert (branch_not_taken_pc inst) work_list
      | kCategoryDirectFunctionCall \<Rightarrow> set_insert (branch_not_taken_pc inst) work_list
      | kCategoryNormal \<Rightarrow> set_insert (next_pc inst) work_list
      | kCategoryNoOp \<Rightarrow> set_insert (next_pc inst) work_list
      | kCategoryConditionalAsyncHyperCall \<Rightarrow> set_insert (branch_not_taken_pc inst) work_list
      | kCategoryDirectJump \<Rightarrow> set_insert (branch_taken_pc inst) work_list
      | kCategoryConditionalBranch \<Rightarrow>
          set_insert (next_pc inst) (set_insert (branch_taken_pc inst) work_list))"

definition AddSuccessorsToTraceList :: "Instruction \<Rightarrow> DecoderWorkList \<Rightarrow> DecoderWorkList" where
  "AddSuccessorsToTraceList inst work_list =
     (case category inst of
        kCategoryDirectFunctionCall \<Rightarrow>
          if branch_taken_pc inst \<noteq> branch_not_taken_pc inst
          then set_insert (branch_taken_pc inst) work_list
          else work_list
      | _ \<Rightarrow> work_list)"

text \<open>\<open>Hasher<TraceHashBaseType>\<close> (Hash.h) is given by its constructor from a seed, its
  \<open>Update\<close> and its \<open>Digest\<close>.\<close>

record 'h Hasher =
  Init :: "u64 \<Rightarrow> 'h"
  Update :: "'h \<Rightarrow> u8 list \<Rightarrow> 'h"
  Digest :: "'h \<Rightarrow> u64"

definition HashTraceInstructions :: "'h Hasher \<Rightarrow> DecodedTrace \<Rightarrow> TraceId" where
  "HashTraceInstructions hasher trace =
     (let insts = instructions trace;
          min_pc = (case insts of [] \<Rightarrow> 1 | entry # _ \<Rightarrow> fst entry);
          max_pc = (if insts = [] then 1 else fst (last insts));
          hash2 = foldl (\<lambda>h entry. Update hasher h (bytes (snd entry)))
                    (Init hasher (min_pc * max_pc * of_nat (length insts))) insts
      in \<lparr>hash1 = pc trace, hash2 = Digest hasher hash2\<rparr>)"

text \<open>The inner loop of \<open>DecodeTraces\<close>, over the work list of one trace.\<close>

partial_function (option) decode_work_list ::
  "Arch \<Rightarrow> DecoderWorkList \<Rightarrow> DecoderWorkList \<Rightarrow> DecodedTrace \<Rightarrow> AddressSpace
   \<Rightarrow> (DecoderWorkList \<times> DecodedTrace \<times> AddressSpace) option" where
  "decode_work_list arch work_list trace_list trace s =
     (case work_list of
        [] \<Rightarrow> Some (trace_list, trace, s)
      | ipc # work_list' \<Rightarrow>
          if map_count (instructions trace) ipc
          then decode_work_list arch work_list' trace_list trace s
          else
            (case ReadInstructionBytes arch s ipc of
               (inst_bytes, s1) \<Rightarrow>
                 (case DecodeInstruction arch ipc inst_bytes of
                    (decode_successful, inst) \<Rightarrow>
                      if \<not> decode_successful
                      then decode_work_list arch work_list' trace_list
                             (trace\<lparr>instructions := map_assign (instructions trace) ipc inst\<rparr>) s1
                      else decode_work_list arch (AddSuccessorsToWorkList inst work_list')
                             (AddSuccessorsToTraceList inst trace_list)
                             (trace\<lparr>instructions := map_assign (instructions trace) ipc inst\<rparr>)
                             s1)))"

text \<open>The outer loop, over the list of trace entries. The arguments before the lists are
  \<open>FLAGS_version_code\<close>, the digest of a range, the hasher and the architecture.\<close>

partial_function (option) decode_trace_list ::
  "bool \<Rightarrow> (MappedRange \<Rightarrow> u64) \<Rightarrow> 'h Hasher \<Rightarrow> Arch \<Rightarrow> DecoderWorkList \<Rightarrow> DecodedTrace list
   \<Rightarrow> AddressSpace \<Rightarrow> (DecodedTrace list \<times> AddressSpace) option" where
  "decode_trace_list version_code digest hasher arch trace_list traces s =
     (case trace_list of
        [] \<Rightarrow> Some (traces, s)
      | trace_pc # trace_list' \<Rightarrow>
          if IsMarkedTraceHead s trace_pc
          then decode_trace_list version_code digest hasher arch trace_list' traces s
          else
            (case ComputeCodeVersion version_code digest (MarkAsTraceHead s trace_pc) trace_pc of
               (version, s1) \<Rightarrow>
                 Option.bind
                   (decode_work_list arch [trace_pc] trace_list'
                      \<lparr>pc = trace_pc, trace_code_version = version,
                       id = \<lparr>hash1 = 0, hash2 = 0\<rparr>, instructions = []\<rparr> s1)
                   (\<lambda>(trace_list'', trace, s2).
                      decode_trace_list version_code digest hasher arch trace_list''
                        (traces @ [trace\<lparr>id := HashTraceInstructions hasher trace\<rparr>]) s2)))"

definition DecodeTraces ::
  "bool \<Rightarrow> (MappedRange \<Rightarrow> u64) \<Rightarrow> 'h Hasher \<Rightarrow> Arch \<Rightarrow> AddressSpace \<Rightarrow> u64
   \<Rightarrow> (DecodedTrace list \<times> AddressSpace) option" where
  "DecodeTraces version_code digest hasher arch s start_pc =
     decode_trace_list version_code digest hasher arch [start_pc] [] s"

section \<open>The splitting rules, as the specification words them\<close>

text \<open>The rule for one pre-existing map \<open>M\<close> when \<open>[b, l)\<close> is inserted, with the five cases of
  the specification: no overlap, \<open>M\<close> fully contained in \<open>[b, l)\<close>, \<open>[b, l)\<close> fully contained
  in \<open>M\<close>, prefix overlap (\<open>M.base = b\<close>), and suffix overlap (\<open>[b, l)\<close> covers the end of \<open>M\<close>:
  \<open>M.base < b\<close> and \<open>M.limit \<le> l\<close>). The result is the list of ranges that take the place of
  \<open>M\<close>, and \<open>None\<close> for a map that none of the five cases describes: one that \<open>[b, l)\<close>
  overlaps at its start with \<open>b < M.base\<close>.\<close>

definition splitting_rule :: "u64 \<Rightarrow> u64 \<Rightarrow> MappedRange \<Rightarrow> MappedRange list option" where
  "splitting_rule b l M =
     (if limit_address M \<le> b \<or> l \<le> base_address M then Some [M]
      else if b \<le> base_address M \<and> limit_address M \<le> l then Some []
      else if base_address M < b \<and> l < limit_address M
      then Some [Copy M (base_address M) b, Copy M l (limit_address M)]
      else if base_address M = b \<and> l < limit_address M then Some [Copy M l (limit_address M)]
      else if base_address M < b \<and> limit_address M \<le> l then Some [Copy M (base_address M) b]
      else None)"

text \<open>The rules applied to a list of maps, in order; \<open>None\<close> when a map has no rule.\<close>

fun splitting_rules :: "u64 \<Rightarrow> u64 \<Rightarrow> MappedRange list \<Rightarrow> MappedRange list option" where
  "splitting_rules b l [] = Some []"
| "splitting_rules b l (M # Ms) =
     (case splitting_rule b l M of
        None \<Rightarrow> None
      | Some rs \<Rightarrow> map_option (\<lambda>rest. rs @ rest) (splitting_rules b l Ms))"

section \<open>Scenario states\<close>

text \<open>The state that \<open>AddressSpace_new 64\<close> builds: only the sentinel.\<close>

definition empty_space64 :: AddressSpace where
  "empty_space64 =
     \<lparr>maps = [1], page_to_map = (\<lambda>_. None), wnx_page_to_map = (\<lambda>_. None),
      last_map_cache = (\<lambda>_. None), wnx_last_map_cache = (\<lambda>_. None),
      min_addr = 0xFFFFFFFFFFFFFFFF, addr_mask = 0xFFFFFFFFFFFFFFFF, invalid = 1,
      page_is_readable = {}, page_is_writable = {}, page_is_executable = {},
      trace_heads = {}, is_dead = False,
      heap = (\<lambda>_. CreateInvalid 0 0xFFFFFFFFFFFFFFFF), next_ptr = 2\<rparr>"

section \<open>Trace identifiers and successors, as the specification words them\<close>

text \<open>The seed of the content hash: \<open>min_pc * max_pc * instruction_count\<close>, which is
  \<open>1 * 1 * 0\<close> for a trace without instructions.\<close>

definition trace_seed :: "DecodedTrace \<Rightarrow> u64" where
  "trace_seed t =
     (if instructions t = [] then 0
      else Min (fst ` set (instructions t)) * Max (fst ` set (instructions t))
           * of_nat (length (instructions t)))"

text \<open>The bytes of a trace with the program counters they are decoded at, in the order of
  the instruction map.\<close>

definition placed_bytes :: "DecodedTrace \<Rightarrow> (u64 \<times> u8 list) list" where
  "placed_bytes t = map (\<lambda>entry. (fst entry, bytes (snd entry))) (instructions t)"

text \<open>The categories after which the decoder follows no successor.\<close>

definition ends_trace :: "Category \<Rightarrow> bool" where
  "ends_trace c = (c = kCategoryIndirectJump \<or> c = kCategoryFunctionReturn \<or> c = kCategoryAsyncHyperCall
     \<or> c = kCategoryError \<or> c = kCategoryInvalid)"

section \<open>Scenario inputs for the decoder\<close>

text \<open>A hasher to compute with: it adds the number of bytes to the seed.\<close>

definition sum_hasher :: "u64 Hasher" where
  "sum_hasher = \<lparr>Init = (\<lambda>seed. seed), Update = (\<lambda>h bs. h + of_nat (length bs)), Digest = (\<lambda>h. h)\<rparr>"

text \<open>The one-byte instructions \<open>nop\<close> and \<open>ret\<close> at an address, and the trace \<open>nop; ret\<close>.\<close>

definition nop_at :: "u64 \<Rightarrow> Instruction" where
  "nop_at a = \<lparr>category = kCategoryNoOp, next_pc = a + 1, branch_taken_pc = 0,
      branch_not_taken_pc = 0, bytes = [0x90]\<rparr>"

definition ret_at :: "u64 \<Rightarrow> Instruction" where
  "ret_at a = \<lparr>category = kCategoryFunctionReturn, next_pc = a + 1, branch_taken_pc = 0,
      branch_not_taken_pc = 0, bytes = [0xC3]\<rparr>"

definition nop_ret_trace :: "u64 \<Rightarrow> u64 \<Rightarrow> DecodedTrace" where
  "nop_ret_trace a version =
     \<lparr>pc = a, trace_code_version = version, id = \<lparr>hash1 = 0, hash2 = 0\<rparr>,
      instructions = [(a, nop_at a), (a + 1, ret_at (a + 1))]\<rparr>"

text \<open>An architecture to decode with. Its instructions are \<open>0xC3\<close>, a return of one byte,
  and \<open>0xE8\<close> followed by the eight bytes of the target, lowest first, and seven more bytes:
  a direct call of sixteen bytes whose return site is the next instruction. Every other byte
  string, the empty one too, fails to decode.\<close>

definition toy_call :: "u64 \<Rightarrow> u8 list \<Rightarrow> Instruction" where
  "toy_call a bs = \<lparr>category = kCategoryDirectFunctionCall, next_pc = a + 16,
     branch_taken_pc = le_word (take 8 (tl bs)), branch_not_taken_pc = a + 16, bytes = bs\<rparr>"

definition toy_arch :: Arch where
  "toy_arch = \<lparr>MaxInstructionSize = 16,
     DecodeInstruction = (\<lambda>a bs.
       if bs \<noteq> [] \<and> hd bs = 0xE8 \<and> length bs = 16 then (True, toy_call a bs)
       else if bs \<noteq> [] \<and> hd bs = 0xC3 then (True, ret_at a)
       else (False, \<lparr>category = kCategoryInvalid, next_pc = 0, branch_taken_pc = 0,
                      branch_not_taken_pc = 0, bytes = bs\<rparr>))\<rparr>"

text \<open>Code for this architecture: a call to \<open>0x8000\<close> at \<open>0x4000\<close>, a return at its return
  site \<open>0x4010\<close> and a return at \<open>0x8000\<close>.\<close>

definition call_code :: "u64 \<Rightarrow> u8" where
  "call_code = (\<lambda>_. 0)(0x4000 := 0xE8, 0x4001 := 0x00, 0x4002 := 0x80, 0x4010 := 0xC3,
     0x8000 := 0xC3)"

section \<open>Scenario states of the address space\<close>

text \<open>One anonymous page \<open>[0x1000, 0x2000)\<close>, readable and writable: the state after
  \<open>AddMap 0x1000 0x1000\<close> on the 64-bit space.\<close>

definition rw_page_space :: AddressSpace where
  "rw_page_space =
     \<lparr>maps = [3, 2, 4], page_to_map = [0x1000 \<mapsto> 2], wnx_page_to_map = [0x1000 \<mapsto> 2],
      last_map_cache = (\<lambda>_. None), wnx_last_map_cache = (\<lambda>_. None),
      min_addr = 0x1000, addr_mask = 0xFFFFFFFFFFFFFFFF, invalid = 1,
      page_is_readable = {0x1000}, page_is_writable = {0x1000}, page_is_executable = {},
      trace_heads = {}, is_dead = False,
      heap = (\<lambda>_. CreateInvalid 0 0xFFFFFFFFFFFFFFFF)
        (2 := Create 0x1000 0x2000, 3 := CreateInvalid 0 0x1000,
         4 := CreateInvalid 0x2000 0xFFFFFFFFFFFFFFFF),
      next_ptr = 5\<rparr>"

text \<open>One range \<open>[0x1000, 0x3000)\<close> whose first page is readable and writable and whose
  second page is also executable: the state after \<open>AddMap 0x1000 0x2000\<close> and
  \<open>SetPermissions 0x2000 0x1000 true true true\<close>.\<close>

definition mixed_page_space :: AddressSpace where
  "mixed_page_space =
     \<lparr>maps = [3, 2, 4], page_to_map = [0x1000 \<mapsto> 2, 0x2000 \<mapsto> 2],
      wnx_page_to_map = [0x1000 \<mapsto> 2],
      last_map_cache = (\<lambda>_. None), wnx_last_map_cache = (\<lambda>_. None),
      min_addr = 0x1000, addr_mask = 0xFFFFFFFFFFFFFFFF, invalid = 1,
      page_is_readable = {0x2000, 0x1000}, page_is_writable = {0x2000, 0x1000},
      page_is_executable = {0x2000},
      trace_heads = {}, is_dead = False,
      heap = (\<lambda>_. CreateInvalid 0 0xFFFFFFFFFFFFFFFF)
        (2 := Create 0x1000 0x3000, 3 := CreateInvalid 0 0x1000,
         4 := CreateInvalid 0x3000 0xFFFFFFFFFFFFFFFF),
      next_ptr = 5\<rparr>"

section \<open>Page alignment\<close>

text \<open>An address is page-aligned when it is a multiple of the page size.\<close>

definition page_aligned :: "u64 \<Rightarrow> bool" where
  "page_aligned a = (unat a mod 4096 = 0)"

section \<open>The effect of a write\<close>

text \<open>The bytes of a range after the bytes of \<open>ins\<close> have been stored from address \<open>a\<close> up to,
  and not including, address \<open>n\<close>.\<close>

definition written_bytes :: "u64 \<Rightarrow> u64 \<Rightarrow> u8 list \<Rightarrow> (u64 \<Rightarrow> u8) \<Rightarrow> (u64 \<Rightarrow> u8)" where
  "written_bytes a n ins m = (\<lambda>x. if a \<le> x \<and> x < n then ins ! (unat x - unat a) else m x)"

section \<open>Well-formed maps and free addresses\<close>

text \<open>The list \<open>maps\<close> is kept sorted by base address with ranges that do not overlap: every
  range has its base at or below its limit, and the limit of a range is at or below the base of
  every later one.\<close>

definition ranges_disjoint_sorted :: "(nat \<Rightarrow> MappedRange) \<Rightarrow> nat list \<Rightarrow> bool" where
  "ranges_disjoint_sorted h xs =
     (list_all (\<lambda>p. base_address (h p) \<le> limit_address (h p)) xs
      \<and> sorted_wrt (\<lambda>p p'. limit_address (h p) \<le> base_address (h p')) xs)"

text \<open>Bases lie on pages; a limit lies on a page or is the address mask of the space.\<close>

definition bounds_aligned :: "(nat \<Rightarrow> MappedRange) \<Rightarrow> u64 \<Rightarrow> nat list \<Rightarrow> bool" where
  "bounds_aligned h am xs =
     list_all (\<lambda>p. page_aligned (base_address (h p))
        \<and> (page_aligned (limit_address (h p)) \<or> limit_address (h p) = am)) xs"

text \<open>Every entry of \<open>page_to_map\<close> names a valid range of \<open>maps\<close> that contains the page.\<close>

definition index_sound :: "AddressSpace \<Rightarrow> bool" where
  "index_sound s =
     (\<forall>page p. page_to_map s page = Some p \<longrightarrow>
        p \<in> set (maps s) \<and> is_valid (heap s p) \<and> Contains (heap s p) page)"

text \<open>No valid range of \<open>xs\<close> meets \<open>[lo, hi)\<close>; \<open>a\<close> is a base or a limit of a range of \<open>xs\<close>.\<close>

definition gap_free :: "(nat \<Rightarrow> MappedRange) \<Rightarrow> nat list \<Rightarrow> u64 \<Rightarrow> u64 \<Rightarrow> bool" where
  "gap_free h xs lo hi =
     list_all (\<lambda>p. is_valid (h p) \<longrightarrow> limit_address (h p) \<le> lo \<or> hi \<le> base_address (h p)) xs"

definition is_bound :: "(nat \<Rightarrow> MappedRange) \<Rightarrow> nat list \<Rightarrow> u64 \<Rightarrow> bool" where
  "is_bound h xs a = list_ex (\<lambda>p. a = base_address (h p) \<or> a = limit_address (h p)) xs"

text \<open>The gaps that \<open>FindHole\<close> looks at, from the highest range down: every tombstone, and
  the space between a valid range and the range below it. The allocation of \<open>sz\<close> bytes at
  \<open>c\<close> fits in a gap when it lies in the gap and in \<open>[mn, mx)\<close>.\<close>

fun FindHole_gaps :: "(nat \<Rightarrow> MappedRange) \<Rightarrow> nat list \<Rightarrow> (u64 \<times> u64) list" where
  "FindHole_gaps h [] = []"
| "FindHole_gaps h (range_high # rest) =
     (if \<not> is_valid (h range_high)
      then [(base_address (h range_high), limit_address (h range_high))]
      else (case rest of
              [] \<Rightarrow> []
            | range_low # _ \<Rightarrow> [(limit_address (h range_low), base_address (h range_high))]))
     @ FindHole_gaps h rest"

definition fits_in_gap :: "u64 \<Rightarrow> u64 \<Rightarrow> u64 \<Rightarrow> u64 \<times> u64 \<Rightarrow> u64 \<Rightarrow> bool" where
  "fits_in_gap mn mx sz gap c =
     (max mn (fst gap) \<le> c \<and> c < mx \<and> unat c + unat sz \<le> unat (min mx (snd gap)))"

text \<open>The address \<open>a\<close> lies in a valid range of \<open>maps\<close>.\<close>

definition in_valid_range :: "AddressSpace \<Rightarrow> u64 \<Rightarrow> bool" where
  "in_valid_range s a = list_ex (\<lambda>p. is_valid (heap s p) \<and> Contains (heap s p) a) (maps s)"

text \<open>The space with the valid ranges \<open>[0x1000, 0x2000)\<close> and \<open>[0x5000, 0x6000)\<close>: the state
  after \<open>AddMap(0x5000, 0x1000)\<close> on \<open>rw_page_space\<close>.\<close>

definition two_range_space :: AddressSpace where
  "two_range_space =
     \<lparr>maps = [3, 2, 6, 5, 7], page_to_map = [0x1000 \<mapsto> 2, 0x5000 \<mapsto> 5],
      wnx_page_to_map = [0x1000 \<mapsto> 2, 0x5000 \<mapsto> 5],
      last_map_cache = (\<lambda>_. None), wnx_last_map_cache = (\<lambda>_. None),
      min_addr = 0x1000, addr_mask = 0xFFFFFFFFFFFFFFFF, invalid = 1,
      page_is_readable = {0x5000, 0x1000}, page_is_writable = {0x5000, 0x1000},
      page_is_executable = {},
      trace_heads = {}, is_dead = False,
      heap = (\<lambda>_. CreateInvalid 0 0xFFFFFFFFFFFFFFFF)
        (2 := Create 0x1000 0x2000, 3 := CreateInvalid 0 0x1000,
         4 := CreateInvalid 0x2000 0xFFFFFFFFFFFFFFFF, 5 := Create 0x5000 0x6000,
         6 := CreateInvalid 0x2000 0x5000, 7 := CreateInvalid 0x6000 0xFFFFFFFFFFFFFFFF),
      next_ptr = 8\<rparr>"

text \<open>The empty 64-bit space after \<open>RemoveMap(0x3000, 0x1000)\<close>: three tombstones that tile
  the address space and no valid range.\<close>

definition punched_space :: AddressSpace where
  "punched_space =
     \<lparr>maps = [3, 2, 4], page_to_map = (\<lambda>_. None), wnx_page_to_map = (\<lambda>_. None),
      last_map_cache = (\<lambda>_. None), wnx_last_map_cache = (\<lambda>_. None),
      min_addr = 0xFFFFFFFFFFFFFFFF, addr_mask = 0xFFFFFFFFFFFFFFFF, invalid = 1,
      page_is_readable = {}, page_is_writable = {}, page_is_executable = {},
      trace_heads = {}, is_dead = False,
      heap = (\<lambda>_. CreateInvalid 0 0xFFFFFFFFFFFFFFFF)
        (2 := CreateInvalid 0x3000 0x4000, 3 := CreateInvalid 0 0x3000,
         4 := CreateInvalid 0x4000 0xFFFFFFFFFFFFFFFF),
      next_ptr = 5\<rparr>"

section \<open>The copy constructor\<close>

text \<open>Modelled from the spec: \<open>MappedRange::Clone\<close> (MappedRange.cpp is not among the
  sources): the clone has the bounds, the validity and the bytes of the range it is cloned
  from, and a code-version token of its own that starts with the value of the original.\<close>

definition Clone :: "MappedRange \<Rightarrow> MappedRange" where
  "Clone r = r"

text \<open>\<open>AddressSpace(const AddressSpace &parent)\<close>: the valid ranges are cloned, the tombstones
  are shared, and the page indices are built anew. The result is the state of the new
  address space.\<close>

fun clone_maps :: "nat list \<Rightarrow> nat list \<Rightarrow> AddressSpace \<Rightarrow> nat list \<times> AddressSpace" where
  "clone_maps [] new_maps s = (new_maps, s)"
| "clone_maps (m # ms) new_maps s =
     (if is_valid (heap s m)
      then (case alloc s (Clone (heap s m)) of (c, s1) \<Rightarrow> clone_maps ms (new_maps @ [c]) s1)
      else clone_maps ms (new_maps @ [m]) s)"

definition AddressSpace_copy :: "AddressSpace \<Rightarrow> AddressSpace option" where
  "AddressSpace_copy parent =
     (case clone_maps (maps parent) [] parent of
        (new_maps, s1) \<Rightarrow>
          CreatePageToRangeMap
            (s1\<lparr>maps := new_maps, page_to_map := (\<lambda>_. None), wnx_page_to_map := (\<lambda>_. None),
                last_map_cache := (\<lambda>_. None), wnx_last_map_cache := (\<lambda>_. None)\<rparr>))"

section \<open>Calls and the states they reach\<close>

text \<open>A call of a member function that can change the address space. \<open>after_call\<close> is
  the state the call leaves, with \<open>FLAGS_version_code\<close> as its first argument; there is
  none when the call does not return or a \<open>CHECK\<close> fails. The overload of \<open>AddMap\<close> for a
  page range of a snapshot is \<open>CreateMap\<close> followed by \<open>SetPermissions\<close>, and
  \<open>ToReadWriteVirtualAddress\<close> and \<open>ToReadOnlyVirtualAddress\<close> change the state as
  \<open>FindRange\<close> does.\<close>

datatype call =
    CallCopy
  | CallFindRange u64
  | CallFindWNXRange u64
  | CallAddMap u64 u64
  | CallRemoveMap u64 u64
  | CallSetPermissions u64 u64 bool bool bool
  | CallKill
  | CallMarkAsTraceHead u64
  | CallTryRead u64 u64
  | CallTryWrite u64 "u8 list"
  | CallTryRead_u8 u64
  | CallTryRead_typed nat u64
  | CallTryWrite_u8 u64 u8
  | CallTryWrite_typed u64 "u8 list"
  | CallTryReadExecutable u64
  | CallComputeCodeVersion "MappedRange \<Rightarrow> u64" u64

fun after_call :: "bool \<Rightarrow> call \<Rightarrow> AddressSpace \<Rightarrow> AddressSpace option" where
  "after_call vc CallCopy s = AddressSpace_copy s"
| "after_call vc (CallFindRange a) s = Some (snd (FindRange s a))"
| "after_call vc (CallFindWNXRange a) s = Some (snd (FindWNXRange s a))"
| "after_call vc (CallAddMap vbase sz) s =
     (case AddMap s vbase sz of Some (Inr y) \<Rightarrow> Some y | _ \<Rightarrow> None)"
| "after_call vc (CallRemoveMap vbase sz) s =
     (case RemoveMap s vbase sz of Some (Inr y) \<Rightarrow> Some y | _ \<Rightarrow> None)"
| "after_call vc (CallSetPermissions vbase sz r w x) s = SetPermissions s vbase sz r w x"
| "after_call vc CallKill s = Some (Kill s)"
| "after_call vc (CallMarkAsTraceHead head) s = Some (MarkAsTraceHead s head)"
| "after_call vc (CallTryRead a sz) s = map_option (snd \<circ> snd) (TryRead s a sz)"
| "after_call vc (CallTryWrite a val) s = map_option snd (TryWrite vc s a val)"
| "after_call vc (CallTryRead_u8 a) s = Some (snd (TryRead_u8 s a))"
| "after_call vc (CallTryRead_typed n a) s = map_option (snd \<circ> snd) (TryRead_typed n s a)"
| "after_call vc (CallTryWrite_u8 a val) s = map_option snd (TryWrite_u8 vc s a val)"
| "after_call vc (CallTryWrite_typed a val) s = map_option snd (TryWrite_typed vc s a val)"
| "after_call vc (CallTryReadExecutable a) s = Some (snd (TryReadExecutable s a))"
| "after_call vc (CallComputeCodeVersion digest a) s = Some (snd (ComputeCodeVersion vc digest s a))"

fun after_calls :: "bool \<Rightarrow> call list \<Rightarrow> AddressSpace \<Rightarrow> AddressSpace option" where
  "after_calls vc [] s = Some s"
| "after_calls vc (c # cs) s = Option.bind (after_call vc c s) (after_calls vc cs)"

section \<open>Mapped addresses and permissions\<close>

text \<open>A page has a permission when it is in one of the three permission sets.\<close>

definition page_has_permission :: "AddressSpace \<Rightarrow> u64 \<Rightarrow> bool" where
  "page_has_permission s page =
     (CanReadAligned s page \<or> CanWriteAligned s page \<or> CanExecuteAligned s page)"

text \<open>Effective permissions, as the specification words them: an address is effectively
  readable, writable or executable when its page is in the corresponding set and the address
  belongs to a valid range.\<close>

definition effectively_readable :: "AddressSpace \<Rightarrow> u64 \<Rightarrow> bool" where
  "effectively_readable s a = (CanReadAligned s (AlignDownToPage a) \<and> in_valid_range s a)"

definition effectively_writable :: "AddressSpace \<Rightarrow> u64 \<Rightarrow> bool" where
  "effectively_writable s a = (CanWriteAligned s (AlignDownToPage a) \<and> in_valid_range s a)"

definition effectively_executable :: "AddressSpace \<Rightarrow> u64 \<Rightarrow> bool" where
  "effectively_executable s a = (CanExecuteAligned s (AlignDownToPage a) \<and> in_valid_range s a)"

text \<open>The invariant of the maps: a range of \<open>maps\<close> is an allocated object whose base
  lies on a page and whose limit is at most the address mask and is on a page or is the
  address mask; the pages of a valid range can be counted up to the limit without wrapping
  around.\<close>

definition range_wf :: "u64 \<Rightarrow> MappedRange \<Rightarrow> bool" where
  "range_wf am r =
     (page_aligned (base_address r) \<and> limit_address r \<le> am
      \<and> (page_aligned (limit_address r) \<or> limit_address r = am)
      \<and> (is_valid r \<longrightarrow> unat (limit_address r) + 4096 \<le> 2 ^ 64))"

definition maps_wf :: "AddressSpace \<Rightarrow> bool" where
  "maps_wf s = (\<forall>p \<in> set (maps s). p < next_ptr s \<and> range_wf (addr_mask s) (heap s p))"

text \<open>The page index is exact: its entries are the pages with a permission that lie in a
  valid range, each with a valid range that contains it.\<close>

definition index_exact :: "AddressSpace \<Rightarrow> bool" where
  "index_exact s =
     ((\<forall>page p. page_to_map s page = Some p \<longrightarrow>
          p \<in> set (maps s) \<and> is_valid (heap s p) \<and> Contains (heap s p) page
          \<and> page_aligned page \<and> page_has_permission s page)
      \<and> (\<forall>page. page_aligned page \<and> page_has_permission s page \<and> in_valid_range s page
            \<longrightarrow> page_to_map s page \<noteq> None))"

text \<open>The invariant of the address space: a dead space has no maps, and the address mask is
  one of the two that \<open>GetAddressMask\<close> gives.\<close>

definition space_inv :: "AddressSpace \<Rightarrow> bool" where
  "space_inv s =
     (maps_wf s \<and> index_exact s \<and> (is_dead s \<longrightarrow> maps s = [])
      \<and> (addr_mask s = 0xFFFFFFFF \<or> addr_mask s = 0xFFFFFFFFFFFFFFFF))"

text \<open>What the construction of the page indices keeps (\<open>index_frame\<close>), what an
  allocation of a range object keeps (\<open>heap_grows\<close>), and what a read or a write keeps
  (\<open>same_layout\<close>).\<close>

definition index_frame :: "AddressSpace \<Rightarrow> AddressSpace \<Rightarrow> bool" where
  "index_frame s y =
     (maps y = maps s \<and> heap y = heap s \<and> page_is_readable y = page_is_readable s
      \<and> page_is_writable y = page_is_writable s \<and> page_is_executable y = page_is_executable s
      \<and> is_dead y = is_dead s \<and> addr_mask y = addr_mask s \<and> next_ptr y = next_ptr s)"

definition heap_grows :: "AddressSpace \<Rightarrow> AddressSpace \<Rightarrow> bool" where
  "heap_grows s y =
     (next_ptr s \<le> next_ptr y \<and> (\<forall>p < next_ptr s. heap y p = heap s p)
      \<and> maps y = maps s \<and> addr_mask y = addr_mask s \<and> is_dead y = is_dead s)"

definition same_layout :: "AddressSpace \<Rightarrow> AddressSpace \<Rightarrow> bool" where
  "same_layout s y =
     (maps y = maps s \<and> page_to_map y = page_to_map s \<and> addr_mask y = addr_mask s
      \<and> next_ptr y = next_ptr s \<and> is_dead y = is_dead s
      \<and> page_is_readable y = page_is_readable s \<and> page_is_writable y = page_is_writable s
      \<and> page_is_executable y = page_is_executable s
      \<and> (\<forall>p. is_valid (heap y p) = is_valid (heap s p)
             \<and> base_address (heap y p) = base_address (heap s p)
             \<and> limit_address (heap y p) = limit_address (heap s p)))"

text \<open>The 32-bit space as \<open>AddressSpace_new 32\<close> builds it, and the state after
  \<open>AddMap(0xFFFFF000, 0x1000)\<close> on it: the limit of the new range is the address mask.\<close>

definition empty_space32 :: AddressSpace where
  "empty_space32 =
     \<lparr>maps = [1], page_to_map = (\<lambda>_. None), wnx_page_to_map = (\<lambda>_. None),
      last_map_cache = (\<lambda>_. None), wnx_last_map_cache = (\<lambda>_. None),
      min_addr = 0xFFFFFFFFFFFFFFFF, addr_mask = 0xFFFFFFFF, invalid = 1,
      page_is_readable = {}, page_is_writable = {}, page_is_executable = {},
      trace_heads = {}, is_dead = False,
      heap = (\<lambda>_. CreateInvalid 0 0xFFFFFFFF), next_ptr = 2\<rparr>"

definition top_page_space32 :: AddressSpace where
  "top_page_space32 =
     \<lparr>maps = [3, 2], page_to_map = [0xFFFFF000 \<mapsto> 2], wnx_page_to_map = [0xFFFFF000 \<mapsto> 2],
      last_map_cache = (\<lambda>_. None), wnx_last_map_cache = (\<lambda>_. None),
      min_addr = 0xFFFFF000, addr_mask = 0xFFFFFFFF, invalid = 1,
      page_is_readable = {0xFFFFF000}, page_is_writable = {0xFFFFF000}, page_is_executable = {},
      trace_heads = {}, is_dead = False,
      heap = (\<lambda>_. CreateInvalid 0 0xFFFFFFFF)
        (2 := Create 0xFFFFF000 0xFFFFFFFF, 3 := CreateInvalid 0 0xFFFFF000),
      next_ptr = 4\<rparr>"

text \<open>The state after \<open>SetPermissions(0x1000, 0x1000, false, false, false)\<close> on
  \<open>rw_page_space\<close>: the range \<open>[0x1000, 0x2000)\<close> is valid and its page has no permission.\<close>

definition no_permission_space :: AddressSpace where
  "no_permission_space =
     \<lparr>maps = [3, 2, 4], page_to_map = (\<lambda>_. None), wnx_page_to_map = (\<lambda>_. None),
      last_map_cache = (\<lambda>_. None), wnx_last_map_cache = (\<lambda>_. None),
      min_addr = 0x1000, addr_mask = 0xFFFFFFFFFFFFFFFF, invalid = 1,
      page_is_readable = {}, page_is_writable = {}, page_is_executable = {},
      trace_heads = {}, is_dead = False,
      heap = (\<lambda>_. CreateInvalid 0 0xFFFFFFFFFFFFFFFF)
        (2 := Create 0x1000 0x2000, 3 := CreateInvalid 0 0x1000,
         4 := CreateInvalid 0x2000 0xFFFFFFFFFFFFFFFF),
      next_ptr = 5\<rparr>"

text \<open>The space with the one valid range \<open>[0x2000, 0x5000)\<close>, the state after
  \<open>AddMap(0x2000, 0x3000)\<close> on the 64-bit space; and the state after \<open>AddMap(0x1000, 0x2000)\<close>
  on it, where the new map \<open>[0x1000, 0x3000)\<close> covers the first page of that range.\<close>

definition three_page_space :: AddressSpace where
  "three_page_space =
     \<lparr>maps = [3, 2, 4], page_to_map = [0x2000 \<mapsto> 2, 0x3000 \<mapsto> 2, 0x4000 \<mapsto> 2],
      wnx_page_to_map = [0x2000 \<mapsto> 2, 0x3000 \<mapsto> 2, 0x4000 \<mapsto> 2],
      last_map_cache = (\<lambda>_. None), wnx_last_map_cache = (\<lambda>_. None),
      min_addr = 0x2000, addr_mask = 0xFFFFFFFFFFFFFFFF, invalid = 1,
      page_is_readable = {0x4000, 0x3000, 0x2000}, page_is_writable = {0x4000, 0x3000, 0x2000},
      page_is_executable = {}, trace_heads = {}, is_dead = False,
      heap = (\<lambda>_. CreateInvalid 0 0xFFFFFFFFFFFFFFFF)
        (2 := Create 0x2000 0x5000, 3 := CreateInvalid 0 0x2000,
         4 := CreateInvalid 0x5000 0xFFFFFFFFFFFFFFFF),
      next_ptr = 5\<rparr>"

definition head_overlap_space :: AddressSpace where
  "head_overlap_space =
     \<lparr>maps = [6, 5, 7, 4], page_to_map = [0x1000 \<mapsto> 5, 0x2000 \<mapsto> 5],
      wnx_page_to_map = [0x1000 \<mapsto> 5, 0x2000 \<mapsto> 5],
      last_map_cache = (\<lambda>_. None), wnx_last_map_cache = (\<lambda>_. None),
      min_addr = 0x1000, addr_mask = 0xFFFFFFFFFFFFFFFF, invalid = 1,
      page_is_readable = {0x2000, 0x1000, 0x4000, 0x3000},
      page_is_writable = {0x2000, 0x1000, 0x4000, 0x3000},
      page_is_executable = {}, trace_heads = {}, is_dead = False,
      heap = (\<lambda>_. CreateInvalid 0 0xFFFFFFFFFFFFFFFF)
        (2 := Create 0x2000 0x5000, 3 := CreateInvalid 0 0x2000,
         4 := CreateInvalid 0x5000 0xFFFFFFFFFFFFFFFF, 5 := Create 0x1000 0x3000,
         6 := CreateInvalid 0 0x1000, 7 := Copy (Create 0x2000 0x5000) 0x2000 0x1000),
      next_ptr = 8\<rparr>"

section \<open>Code to decode\<close>

text \<open>The range \<open>r\<close> is a valid range \<open>[lo, hi)\<close> with the bytes \<open>m\<close> in a 64-bit space, all its
  pages are indexed and executable, and the read caches hold no other range.\<close>

definition code_range :: "AddressSpace \<Rightarrow> nat \<Rightarrow> u64 \<Rightarrow> u64 \<Rightarrow> (u64 \<Rightarrow> u8) \<Rightarrow> bool" where
  "code_range s r lo hi m =
     (addr_mask s = 0xFFFFFFFFFFFFFFFF \<and> is_valid (heap s r)
      \<and> base_address (heap s r) = lo \<and> limit_address (heap s r) = hi \<and> bytes_at (heap s r) = m
      \<and> page_aligned lo
      \<and> (\<forall>i. last_map_cache s i = None \<or> last_map_cache s i = Some r)
      \<and> (\<forall>p. page_aligned p \<and> lo \<le> p \<and> p < hi \<longrightarrow>
             page_to_map s p = Some r \<and> p \<in> page_is_executable s))"

text \<open>The space with the code \<open>call_code\<close> in the executable range \<open>[0x4000, 0x9000)\<close>: the
  state after \<open>AddMap(0x4000, 0x5000)\<close>, the writes of the three instructions and
  \<open>SetPermissions(0x4000, 0x5000, true, true, true)\<close>.\<close>

definition call_space :: AddressSpace where
  "call_space =
     \<lparr>maps = [3, 2, 4],
      page_to_map = [0x4000 \<mapsto> 2, 0x5000 \<mapsto> 2, 0x6000 \<mapsto> 2, 0x7000 \<mapsto> 2, 0x8000 \<mapsto> 2],
      wnx_page_to_map = (\<lambda>_. None),
      last_map_cache = (\<lambda>_. None), wnx_last_map_cache = (\<lambda>_. None),
      min_addr = 0x4000, addr_mask = 0xFFFFFFFFFFFFFFFF, invalid = 1,
      page_is_readable = {0x4000, 0x5000, 0x6000, 0x7000, 0x8000},
      page_is_writable = {0x4000, 0x5000, 0x6000, 0x7000, 0x8000},
      page_is_executable = {0x4000, 0x5000, 0x6000, 0x7000, 0x8000},
      trace_heads = {}, is_dead = False,
      heap = (\<lambda>_. CreateInvalid 0 0xFFFFFFFFFFFFFFFF)
        (3 := CreateInvalid 0 0x4000, 4 := CreateInvalid 0x9000 0xFFFFFFFFFFFFFFFF,
         2 := (Create 0x4000 0x9000)
                \<lparr>bytes_at := (\<lambda>_. 0)(0x4000 := 0xE8, 0x4001 := 0x00, 0x4002 := 0x80,
                                      0x4010 := 0xC3, 0x8000 := 0xC3)\<rparr>),
      next_ptr = 5\<rparr>"

text \<open>The state after \<open>AddMap(0x1000, 0)\<close> on the 64-bit space: the new valid range
  \<open>[0x1000, 0x1000)\<close> is empty and comes after the tombstone \<open>[0x1000, 2^64 - 1)\<close>.\<close>

definition empty_range_space :: AddressSpace where
  "empty_range_space =
     \<lparr>maps = [3, 4, 2], page_to_map = (\<lambda>_. None), wnx_page_to_map = (\<lambda>_. None),
      last_map_cache = (\<lambda>_. None), wnx_last_map_cache = (\<lambda>_. None),
      min_addr = 0x1000, addr_mask = 0xFFFFFFFFFFFFFFFF, invalid = 1,
      page_is_readable = {}, page_is_writable = {}, page_is_executable = {},
      trace_heads = {}, is_dead = False,
      heap = (\<lambda>_. CreateInvalid 0 0xFFFFFFFFFFFFFFFF)
        (2 := Create 0x1000 0x1000, 3 := CreateInvalid 0 0x1000,
         4 := CreateInvalid 0x1000 0xFFFFFFFFFFFFFFFF),
      next_ptr = 5\<rparr>"

section \<open>Evaluation\<close>

lemmas page_defs = kPageSize_def kPageShift_def kPageMask_def AlignDownToPage_def
  RoundUpToPage_def

lemmas range_defs = Create_def CreateInvalid_def Contains_def Read_def Write_def
  ToReadOnlyVirtualAddress_def ToReadWriteVirtualAddress_def Copy_def
  InvalidateCodeVersion_def ComputeCodeVersion_range_def

lemmas map_defs = AddressSpace_new_def GetAddressMask_def CreatePageToRangeMap_def
  index_pages.simps index_page_def CanReadAligned_def CanWriteAligned_def
  CanExecuteAligned_def SetPermissions_def SetPermissions_loop.simps set_permission_def
  CreateMap_def AddMap_def RemoveMap_def alloc_def RemoveRange_def Let_def

lemmas find_defs = FindRangeAligned_def FindRangeAligned_slot_def FindRangeAligned_index_def
  FindRange_def FindWNXRangeAligned_def FindWNXRangeAligned_slot_def
  FindWNXRangeAligned_index_def FindWNXRange_def kRangeCacheSize_def kRangeCacheMask_def

lemma le_bytes_numeral:
  "le_bytes (numeral k) v = ucast v # le_bytes (pred_numeral k) (drop_bit 8 v)"
  by (simp add: numeral_eq_Suc)

lemma load_bytes_numeral:
  "load_bytes m ptr (numeral k) = m ptr # load_bytes m (ptr + 1) (pred_numeral k)"
  by (simp add: numeral_eq_Suc)

lemma ReadInstructionBytes_loop_numeral:
  "ReadInstructionBytes_loop (numeral k) ipc i instr_bytes s =
     (case TryReadExecutable s (ipc + i) of
        (None, s1) \<Rightarrow> (instr_bytes, s1)
      | (Some byte, s1) \<Rightarrow>
          ReadInstructionBytes_loop (pred_numeral k) ipc (i + 1) (instr_bytes @ [byte]) s1)"
  by (simp add: numeral_eq_Suc)

lemmas access_defs = TryRead_def TryRead_pages.simps TryWrite_def TryWrite_pages.simps
  smc_check_def TryRead_u8_def TryRead_typed_def TryWrite_u8_def TryWrite_typed_def
  TryWrite_u16_def TryWrite_u32_def TryWrite_u64_def TryRead_u32_def le_bytes_numeral
  load_bytes_numeral TryReadExecutable_def

lemmas eval_defs = page_defs range_defs map_defs find_defs access_defs

lemma AddressSpace_new_64: "AddressSpace_new 64 = Some empty_space64"
  by (simp add: empty_space64_def page_defs range_defs map_defs)

section \<open>Facts about page alignment\<close>

lemma kPageMask_eq: "kPageMask = NOT (mask 12)"
  by (simp add: kPageMask_def kPageShift_def kPageSize_def mask_eq_exp_minus_1)

lemma AlignDown_push_drop: "AlignDownToPage a = push_bit 12 (drop_bit 12 a)"
  unfolding AlignDownToPage_def kPageMask_eq
  by (rule bit_eqI) (auto simp: bit_simps)

lemma unat_AlignDown: "unat (AlignDownToPage a) = (unat a div 4096) * 4096"
proof -
  have d: "unat (drop_bit 12 a) = unat a div 4096"
    by (simp add: drop_bit_eq_div unat_div)
  have "unat a < 2 ^ 64"
    using unsigned_less [of a] by simp
  then have "unat a div 4096 * 4096 < 2 ^ 64"
    by simp
  then have "unat (drop_bit 12 a) * unat (4096 :: u64) < 2 ^ LENGTH(64)"
    using d by simp
  then have "unat (drop_bit 12 a * 4096) = unat (drop_bit 12 a) * unat (4096 :: u64)"
    by (simp only: unat_mult_lem)
  then show ?thesis
    using d by (simp add: AlignDown_push_drop push_bit_eq_mult)
qed

lemma AlignDown_aligned: "page_aligned (AlignDownToPage a)"
  by (simp add: page_aligned_def unat_AlignDown)

lemma AlignDown_le: "AlignDownToPage a \<le> a"
  by (simp add: word_le_nat_alt unat_AlignDown)

lemma AlignDown_id: "page_aligned a \<Longrightarrow> AlignDownToPage a = a"
  by (rule word_unat_eq_iff [THEN iffD2]) (auto simp: unat_AlignDown page_aligned_def)

lemma aligned_top: "page_aligned p \<Longrightarrow> p \<le> 0xFFFFFFFFFFFFF000"
proof -
  assume a: "page_aligned p"
  then obtain k where k: "unat p = 4096 * k"
    unfolding page_aligned_def by (auto simp: mod_eq_0_iff_dvd)
  have "unat p < 4096 * 4503599627370496" using unsigned_less [of p] by simp
  then have "k < 4503599627370496" using k by simp
  then have "4096 * k \<le> 4096 * 4503599627370495" by simp
  then have "unat p \<le> 18446744073709547520" using k by simp
  then show ?thesis by (simp add: word_le_nat_alt)
qed

lemma aligned_next: "page_aligned p \<Longrightarrow> page_aligned (p + kPageSize)"
proof -
  assume a: "page_aligned p"
  have "unat (p + 4096) = (unat p + 4096) mod 18446744073709551616"
    by (simp add: unat_word_ariths)
  moreover have "(4096 :: nat) dvd 18446744073709551616" by simp
  ultimately have "unat (p + 4096) mod 4096 = (unat p + 4096) mod 4096"
    by (simp only: mod_mod_cancel)
  with a show ?thesis
    by (simp add: page_aligned_def kPageSize_def)
qed

lemma aligned_lt_next:
  assumes "page_aligned p" "p < a" "a \<le> 0xFFFFFFFFFFFFF000" "unat a - unat p < 4096"
  shows "\<not> p + kPageSize < a"
proof -
  have "unat p < unat a" using assms(2) by (simp add: word_less_nat_alt)
  moreover have "unat a \<le> 18446744073709547520" using assms(3) by (simp add: word_le_nat_alt)
  ultimately have "unat p + unat (4096 :: u64) < 2 ^ LENGTH(64)" by simp
  then have "unat (p + 4096) = unat p + unat (4096 :: u64)" by (simp only: unat_add_lem)
  then show ?thesis
    using assms(4) by (simp add: word_less_nat_alt kPageSize_def)
qed

lemma unat_succ: "(a :: u64) < n \<Longrightarrow> unat (a + 1) = unat a + 1"
proof -
  assume "a < n"
  then have "unat a < unat n" by (simp add: word_less_nat_alt)
  moreover have "unat n < 2 ^ LENGTH(64)" by (rule unsigned_less)
  ultimately have "unat a + unat (1 :: u64) < 2 ^ LENGTH(64)" by simp
  then have "unat (a + 1) = unat a + unat (1 :: u64)" by (simp only: unat_add_lem)
  then show ?thesis by simp
qed

lemma aligned_step:
  assumes "page_aligned p" "page_aligned q" "p < q"
  shows "unat (p + kPageSize) = unat p + 4096" and "p + kPageSize \<le> q"
proof -
  obtain k where k: "unat p = 4096 * k"
    using assms(1) unfolding page_aligned_def by (auto simp: mod_eq_0_iff_dvd)
  obtain k' where k': "unat q = 4096 * k'"
    using assms(2) unfolding page_aligned_def by (auto simp: mod_eq_0_iff_dvd)
  have "unat p < unat q" using assms(3) by (simp add: word_less_nat_alt)
  then have "k < k'" using k k' by simp
  then have "4096 * k + 4096 \<le> 4096 * k'" by simp
  then have le: "unat p + 4096 \<le> unat q" using k k' by simp
  moreover have "unat q < 2 ^ LENGTH(64)" by (rule unsigned_less)
  ultimately have "unat p + unat (4096 :: u64) < 2 ^ LENGTH(64)" by simp
  then have "unat (p + 4096) = unat p + unat (4096 :: u64)" by (simp only: unat_add_lem)
  then show u: "unat (p + kPageSize) = unat p + 4096" by (simp add: kPageSize_def)
  show "p + kPageSize \<le> q" using u le by (simp add: word_le_nat_alt)
qed

lemma aligned_le_AlignDown:
  assumes "page_aligned lo" "lo \<le> a"
  shows "lo \<le> AlignDownToPage a"
proof -
  obtain k where k: "unat lo = 4096 * k"
    using assms(1) unfolding page_aligned_def by (auto simp: mod_eq_0_iff_dvd)
  have "4096 * k \<le> unat a" using assms(2) k by (simp add: word_le_nat_alt)
  then have "k \<le> unat a div 4096" by simp
  then have "4096 * k \<le> unat a div 4096 * 4096" by simp
  then show ?thesis using k by (simp add: word_le_nat_alt unat_AlignDown)
qed

lemma RoundUp_aligned: "page_aligned (RoundUpToPage sz)"
  by (simp add: RoundUpToPage_def AlignDownToPage_def [symmetric] AlignDown_aligned)

lemma aligned_diff:
  assumes "page_aligned x" "page_aligned y" "unat z + unat y = unat x"
  shows "page_aligned z"
proof -
  have "4096 dvd unat x" "4096 dvd unat y"
    using assms(1,2) by (simp_all add: page_aligned_def mod_eq_0_iff_dvd)
  then have "4096 dvd unat z" using assms(3) by (metis dvd_add_left_iff)
  then show ?thesis by (simp add: page_aligned_def mod_eq_0_iff_dvd)
qed

lemma aligned_add:
  assumes "page_aligned x" "page_aligned y"
  shows "page_aligned (x + y)"
proof -
  have d: "4096 dvd unat x" "4096 dvd unat y"
    using assms by (simp_all add: page_aligned_def mod_eq_0_iff_dvd)
  have "unat (x + y) = (unat x + unat y) mod 2 ^ LENGTH(64)" by (rule unat_word_ariths)
  moreover have "(4096 :: nat) dvd 2 ^ LENGTH(64)" by simp
  ultimately have "4096 dvd unat (x + y)" using d by (simp only: dvd_mod_iff dvd_add)
  then show ?thesis by (simp add: page_aligned_def mod_eq_0_iff_dvd)
qed

lemma aligned_no_wrap: "page_aligned p \<Longrightarrow> q \<le> p \<Longrightarrow> unat q + 4096 \<le> 2 ^ 64"
proof -
  assume "page_aligned p" "q \<le> p"
  then have "q \<le> 0xFFFFFFFFFFFFF000" using aligned_top [of p] by (meson order_trans)
  then have "unat q \<le> 18446744073709547520" by (simp add: word_le_nat_alt)
  then show ?thesis by simp
qed

lemma and_mask64: "a AND (0xFFFFFFFFFFFFFFFF :: u64) = a"
proof -
  have "(0xFFFFFFFFFFFFFFFF :: u64) = - 1" by simp
  then show ?thesis by (simp only: and.right_neutral)
qed

section \<open>Map splitting (C3)\<close>

text \<open>Where each pre-existing map is described by one of the five cases, \<open>RemoveRange\<close>
  returns, map by map and in order, the ranges of the rules, and the range objects that
  existed are unchanged.\<close>

lemma splitting_rules_Some:
  "splitting_rules b l (M # Ms) = Some rs \<longleftrightarrow>
     (\<exists>r rest. splitting_rule b l M = Some r \<and> splitting_rules b l Ms = Some rest \<and> rs = r @ rest)"
  by (auto split: option.splits)

lemma RemoveRange_loop_rules:
  "\<forall>p \<in> set ranges. p < next_ptr s \<Longrightarrow> \<forall>p \<in> set acc. p < next_ptr s \<Longrightarrow>
   RemoveRange_loop ranges b l acc s = (new_ranges, s') \<Longrightarrow>
   splitting_rules b l (map (heap s) ranges) = Some rs \<Longrightarrow>
   map (heap s') new_ranges = map (heap s) acc @ rs
   \<and> (\<forall>p < next_ptr s. heap s' p = heap s p) \<and> next_ptr s \<le> next_ptr s'"
proof (induction ranges arbitrary: acc s rs)
  case Nil
  then show ?case by simp
next
  case (Cons m ranges)
  let ?M = "heap s m"
  have m: "m < next_ptr s" and below: "\<forall>p \<in> set ranges. p < next_ptr s"
    using Cons.prems(1) by simp_all
  obtain r rest where rule: "splitting_rule b l ?M = Some r"
    and rules: "splitting_rules b l (map (heap s) ranges) = Some rest" and rs: "rs = r @ rest"
    using Cons.prems(4) by (auto split: option.splits)
  have step: "map (heap s') new_ranges = map (heap s) acc @ rs
      \<and> (\<forall>p < next_ptr s. heap s' p = heap s p) \<and> next_ptr s \<le> next_ptr s'"
    if run: "RemoveRange_loop ranges b l (acc @ new) s1 = (new_ranges, s')"
      and grow: "next_ptr s \<le> next_ptr s1" "\<forall>p < next_ptr s. heap s1 p = heap s p"
      and new: "\<forall>p \<in> set new. p < next_ptr s1" "map (heap s1) new = r"
    for new s1
  proof -
    have b1: "\<forall>p \<in> set ranges. p < next_ptr s1" using below grow(1) by auto
    have a1: "\<forall>p \<in> set (acc @ new). p < next_ptr s1"
      using Cons.prems(2) grow(1) new(1) by auto
    have eq: "map (heap s1) ranges = map (heap s) ranges" using below grow(2) by simp
    have r1: "splitting_rules b l (map (heap s1) ranges) = Some rest" unfolding eq by (rule rules)
    have "map (heap s1) acc = map (heap s) acc" using Cons.prems(2) grow(2) by simp
    then show ?thesis using Cons.IH [OF b1 a1 run r1] grow new(2) rs by auto
  qed
  consider (keep) "limit_address ?M \<le> b \<or> l \<le> base_address ?M"
    | (drop) "\<not> (limit_address ?M \<le> b \<or> l \<le> base_address ?M)"
        "b \<le> base_address ?M \<and> limit_address ?M \<le> l"
    | (split) "\<not> (limit_address ?M \<le> b \<or> l \<le> base_address ?M)"
        "\<not> (b \<le> base_address ?M \<and> limit_address ?M \<le> l)"
        "base_address ?M < b \<and> l < limit_address ?M"
    | (prefix) "\<not> (limit_address ?M \<le> b \<or> l \<le> base_address ?M)"
        "\<not> (b \<le> base_address ?M \<and> limit_address ?M \<le> l)"
        "\<not> (base_address ?M < b \<and> l < limit_address ?M)" "base_address ?M = b"
    | (suffix) "\<not> (limit_address ?M \<le> b \<or> l \<le> base_address ?M)"
        "\<not> (b \<le> base_address ?M \<and> limit_address ?M \<le> l)"
        "\<not> (base_address ?M < b \<and> l < limit_address ?M)" "base_address ?M \<noteq> b"
    by blast
  then show ?case
  proof cases
    case keep
    then have "RemoveRange_loop ranges b l (acc @ [m]) s = (new_ranges, s')"
      using Cons.prems(3) by (simp add: Let_def)
    moreover have "r = [?M]" using rule keep by (simp add: splitting_rule_def)
    ultimately show ?thesis using m by (intro step [of "[m]" s]) simp_all
  next
    case drop
    then have "RemoveRange_loop ranges b l (acc @ []) s = (new_ranges, s')"
      using Cons.prems(3) by (simp add: Let_def)
    moreover have "r = []" using rule drop by (simp add: splitting_rule_def)
    ultimately show ?thesis by (intro step [of "[]" s]) simp_all
  next
    case split
    define s1 where "s1 = s\<lparr>heap := (heap s)(next_ptr s := Copy ?M (base_address ?M) b),
        next_ptr := next_ptr s + 1\<rparr>"
    define s2 where "s2 = s1\<lparr>heap := (heap s1)(next_ptr s1 := Copy ?M l (limit_address ?M)),
        next_ptr := next_ptr s1 + 1\<rparr>"
    have hm: "heap s1 m = ?M" using m by (simp add: s1_def)
    have "RemoveRange_loop ranges b l (acc @ [next_ptr s, next_ptr s1]) s2 = (new_ranges, s')"
      using Cons.prems(3) split hm by (simp add: Let_def alloc_def s1_def s2_def)
    moreover have "r = [Copy ?M (base_address ?M) b, Copy ?M l (limit_address ?M)]"
      using rule split by (simp add: splitting_rule_def)
    ultimately show ?thesis
      by (intro step [of "[next_ptr s, next_ptr s1]" s2]) (simp_all add: s1_def s2_def)
  next
    case prefix
    define s1 where "s1 = s\<lparr>heap := (heap s)(next_ptr s := Copy ?M l (limit_address ?M)),
        next_ptr := next_ptr s + 1\<rparr>"
    have "RemoveRange_loop ranges b l (acc @ [next_ptr s]) s1 = (new_ranges, s')"
      using Cons.prems(3) prefix by (simp add: Let_def alloc_def s1_def)
    moreover have "r = [Copy ?M l (limit_address ?M)]"
      using rule prefix by (auto simp: splitting_rule_def split: if_splits)
    ultimately show ?thesis by (intro step [of "[next_ptr s]" s1]) (simp_all add: s1_def)
  next
    case suffix
    define s1 where "s1 = s\<lparr>heap := (heap s)(next_ptr s := Copy ?M (base_address ?M) b),
        next_ptr := next_ptr s + 1\<rparr>"
    have "RemoveRange_loop ranges b l (acc @ [next_ptr s]) s1 = (new_ranges, s')"
      using Cons.prems(3) suffix by (simp add: Let_def alloc_def s1_def)
    moreover have "r = [Copy ?M (base_address ?M) b]"
      using rule suffix by (auto simp: splitting_rule_def split: if_splits)
    ultimately show ?thesis by (intro step [of "[next_ptr s]" s1]) (simp_all add: s1_def)
  qed
qed

lemma RemoveRange_follows_rules:
  assumes "\<forall>p \<in> set ranges. p < next_ptr s" "RemoveRange ranges b l s = (new_ranges, s')"
    "splitting_rules b l (map (heap s) ranges) = Some rs"
  shows "map (heap s') new_ranges = rs \<and> (\<forall>p < next_ptr s. heap s' p = heap s p)"
  using RemoveRange_loop_rules [of ranges s "[]" b l new_ranges s' rs] assms
  by (simp add: RemoveRange_def)

lemma three_page_space_built: "AddMap empty_space64 0x2000 0x3000 = Some (Inr three_page_space)"
  by (simp add: empty_space64_def three_page_space_def eval_defs)

lemma head_overlap_space_built:
  "AddMap three_page_space 0x1000 0x2000 = Some (Inr head_overlap_space)"
  by (simp add: three_page_space_def head_overlap_space_def eval_defs insert_commute)

text \<open>C3, at the failing input. After \<open>AddMap(0x2000, 0x3000)\<close> the valid range is
  \<open>M = [0x2000, 0x5000)\<close>. \<open>AddMap(0x1000, 0x2000)\<close> inserts \<open>[b, l) = [0x1000, 0x3000)\<close>, which
  overlaps the start of \<open>M\<close> with \<open>b < M.base\<close>: none of the five cases describes it, and
  the last branch of \<open>RemoveRange\<close>, written for the suffix overlap, replaces \<open>M\<close> by the
  inverted range \<open>M.copy(0x2000, 0x1000)\<close>. The part \<open>[0x3000, 0x5000)\<close> of \<open>M\<close>, outside the
  new map, is lost: the pages \<open>0x3000\<close> and \<open>0x4000\<close> were mapped before the call and are in no
  valid range after it.\<close>

theorem AddMap_over_the_head_of_a_map:
  "AddMap empty_space64 0x2000 0x3000 = Some (Inr three_page_space)
   \<and> map (heap three_page_space) (maps three_page_space)
       = [CreateInvalid 0 0x2000, Create 0x2000 0x5000, CreateInvalid 0x5000 0xFFFFFFFFFFFFFFFF]
   \<and> IsMapped three_page_space 0x3000 \<and> IsMapped three_page_space 0x4000
   \<and> splitting_rule 0x1000 0x3000 (Create 0x2000 0x5000) = None
   \<and> map (heap (snd (RemoveRange (maps three_page_space) 0x1000 0x3000 three_page_space)))
        (fst (RemoveRange (maps three_page_space) 0x1000 0x3000 three_page_space))
       = [CreateInvalid 0 0x1000, Copy (Create 0x2000 0x5000) 0x2000 0x1000,
          CreateInvalid 0x5000 0xFFFFFFFFFFFFFFFF]
   \<and> AddMap three_page_space 0x1000 0x2000 = Some (Inr head_overlap_space)
   \<and> map (heap head_overlap_space) (maps head_overlap_space)
       = [CreateInvalid 0 0x1000, Create 0x1000 0x3000,
          Copy (Create 0x2000 0x5000) 0x2000 0x1000, CreateInvalid 0x5000 0xFFFFFFFFFFFFFFFF]
   \<and> \<not> IsMapped head_overlap_space 0x3000 \<and> \<not> IsMapped head_overlap_space 0x4000
   \<and> \<not> in_valid_range head_overlap_space 0x3000 \<and> \<not> in_valid_range head_overlap_space 0x4000"
proof -
  have "map (heap three_page_space) (maps three_page_space)
       = [CreateInvalid 0 0x2000, Create 0x2000 0x5000, CreateInvalid 0x5000 0xFFFFFFFFFFFFFFFF]"
    by (simp add: three_page_space_def)
  moreover have "IsMapped three_page_space 0x3000 \<and> IsMapped three_page_space 0x4000"
    by (simp add: three_page_space_def IsMapped_def page_defs range_defs)
  moreover have "splitting_rule 0x1000 0x3000 (Create 0x2000 0x5000) = None"
    by (simp add: splitting_rule_def range_defs)
  moreover have "map (heap (snd (RemoveRange (maps three_page_space) 0x1000 0x3000 three_page_space)))
        (fst (RemoveRange (maps three_page_space) 0x1000 0x3000 three_page_space))
       = [CreateInvalid 0 0x1000, Copy (Create 0x2000 0x5000) 0x2000 0x1000,
          CreateInvalid 0x5000 0xFFFFFFFFFFFFFFFF]"
    by (simp add: three_page_space_def RemoveRange_def alloc_def Let_def range_defs)
  moreover have "map (heap head_overlap_space) (maps head_overlap_space)
       = [CreateInvalid 0 0x1000, Create 0x1000 0x3000,
          Copy (Create 0x2000 0x5000) 0x2000 0x1000, CreateInvalid 0x5000 0xFFFFFFFFFFFFFFFF]"
    by (simp add: head_overlap_space_def)
  moreover have "\<not> IsMapped head_overlap_space 0x3000 \<and> \<not> IsMapped head_overlap_space 0x4000
      \<and> \<not> in_valid_range head_overlap_space 0x3000 \<and> \<not> in_valid_range head_overlap_space 0x4000"
    by (simp add: head_overlap_space_def IsMapped_def in_valid_range_def page_defs range_defs)
  ultimately show ?thesis using three_page_space_built head_overlap_space_built by blast
qed

section \<open>Trace identifiers (C4)\<close>

lemma sorted_hd_Min: "xs \<noteq> [] \<Longrightarrow> sorted xs \<Longrightarrow> hd xs = Min (set xs)"
  by (cases xs) (auto intro!: Min_eqI [symmetric])

lemma sorted_last_Max: "xs \<noteq> [] \<Longrightarrow> sorted xs \<Longrightarrow> last xs = Max (set xs)"
  by (induction xs) (auto simp: max_def intro: antisym)

lemma foldl_bytes: "foldl (\<lambda>h entry. Update hasher h (bytes (snd entry))) h0 insts
   = foldl (Update hasher) h0 (map (\<lambda>entry. bytes (snd entry)) insts)"
  by (induction insts arbitrary: h0) simp_all

lemma HashTraceInstructions_seed:
  assumes "sorted (map fst (instructions t))"
  shows "HashTraceInstructions hasher t =
     \<lparr>hash1 = pc t,
      hash2 = Digest hasher (foldl (Update hasher) (Init hasher (trace_seed t))
                (map snd (placed_bytes t)))\<rparr>"
proof (cases "instructions t")
  case Nil
  then show ?thesis
    by (simp add: HashTraceInstructions_def trace_seed_def placed_bytes_def)
next
  case (Cons e es)
  let ?ks = "map fst (instructions t)"
  have ne: "?ks \<noteq> []" using Cons by simp
  have "fst e = hd ?ks" using Cons by simp
  then have mn: "fst e = Min (fst ` set (instructions t))"
    using sorted_hd_Min [OF ne assms] by simp
  have "fst (last (instructions t)) = last ?ks"
    using Cons by (simp add: last_map)
  then have mx: "fst (last (instructions t)) = Max (fst ` set (instructions t))"
    using sorted_last_Max [OF ne assms] by simp
  have "map (\<lambda>entry. bytes (snd entry)) (instructions t) = map snd (placed_bytes t)"
    by (simp add: placed_bytes_def comp_def)
  then show ?thesis
    using Cons mn mx
    by (simp add: HashTraceInstructions_def Let_def trace_seed_def foldl_bytes del: foldl_Cons)
qed

lemma HashTraceInstructions_placed:
  "HashTraceInstructions hasher t =
     \<lparr>hash1 = pc t,
      hash2 = Digest hasher (foldl (Update hasher)
          (Init hasher ((case placed_bytes t of [] \<Rightarrow> 1 | e # _ \<Rightarrow> fst e)
             * (if placed_bytes t = [] then 1 else fst (last (placed_bytes t)))
             * of_nat (length (placed_bytes t))))
          (map snd (placed_bytes t)))\<rparr>"
proof -
  have "map (\<lambda>entry. bytes (snd entry)) (instructions t) = map snd (placed_bytes t)"
    by (simp add: placed_bytes_def comp_def)
  then show ?thesis
    by (cases "instructions t")
      (simp_all add: HashTraceInstructions_def Let_def foldl_bytes placed_bytes_def last_map
         comp_def del: foldl_Cons)
qed

lemma map_assign_keys: "set (map fst (map_assign m k v)) = insert k (set (map fst m))"
  by (induction m k v rule: map_assign.induct) auto

lemma map_assign_sorted:
  "sorted (map fst m) \<Longrightarrow> sorted (map fst (map_assign m k v))"
proof (induction m k v rule: map_assign.induct)
  case (1 k v)
  then show ?case by simp
next
  case (2 k' v' m k v)
  then show ?case
    using map_assign_keys [of m k v] by (auto simp: less_imp_le)
qed

text \<open>C4. The TraceId of a trace is its entry PC paired with the digest of the bytes of its
  instructions, fed to the hasher instruction by instruction in the order of the
  instruction map and seeded with \<open>min_pc * max_pc * instruction_count\<close> (for a map in
  ascending order of PC, as the decoder builds it). Two traces with the same entry PC and
  the same bytes at the same PCs have equal TraceIds; traces with different entry PCs have
  TraceIds that differ in the first component.\<close>

theorem TraceId_of_trace:
  "(sorted (map fst (instructions t)) \<longrightarrow>
      HashTraceInstructions hasher t =
        \<lparr>hash1 = pc t,
         hash2 = Digest hasher (foldl (Update hasher) (Init hasher (trace_seed t))
                   (map snd (placed_bytes t)))\<rparr>)
   \<and> (pc t1 = pc t2 \<and> placed_bytes t1 = placed_bytes t2 \<longrightarrow>
        HashTraceInstructions hasher t1 = HashTraceInstructions hasher t2)
   \<and> (pc t3 \<noteq> pc t4 \<longrightarrow>
        hash1 (HashTraceInstructions hasher t3) \<noteq> hash1 (HashTraceInstructions hasher t4))"
proof (intro conjI impI)
  assume "sorted (map fst (instructions t))"
  then show "HashTraceInstructions hasher t =
        \<lparr>hash1 = pc t,
         hash2 = Digest hasher (foldl (Update hasher) (Init hasher (trace_seed t))
                   (map snd (placed_bytes t)))\<rparr>"
    by (rule HashTraceInstructions_seed)
next
  assume "pc t1 = pc t2 \<and> placed_bytes t1 = placed_bytes t2"
  then show "HashTraceInstructions hasher t1 = HashTraceInstructions hasher t2"
    by (simp add: HashTraceInstructions_placed)
next
  assume "pc t3 \<noteq> pc t4"
  then show "hash1 (HashTraceInstructions hasher t3) \<noteq> hash1 (HashTraceInstructions hasher t4)"
    by (simp add: HashTraceInstructions_def Let_def)
qed

theorem TraceId_of_trace_witness:
  "sorted (map fst (instructions (nop_ret_trace 0x4000 1)))
   \<and> HashTraceInstructions sum_hasher (nop_ret_trace 0x4000 1)
       = \<lparr>hash1 = 0x4000, hash2 = 0x4000 * 0x4001 * 2 + 2\<rparr>
   \<and> pc (nop_ret_trace 0x4000 1) = pc (nop_ret_trace 0x4000 2)
   \<and> placed_bytes (nop_ret_trace 0x4000 1) = placed_bytes (nop_ret_trace 0x4000 2)
   \<and> HashTraceInstructions sum_hasher (nop_ret_trace 0x4000 1)
       = HashTraceInstructions sum_hasher (nop_ret_trace 0x4000 2)
   \<and> pc (nop_ret_trace 0x4000 1) \<noteq> pc (nop_ret_trace 0x5000 1)
   \<and> hash1 (HashTraceInstructions sum_hasher (nop_ret_trace 0x4000 1))
       \<noteq> hash1 (HashTraceInstructions sum_hasher (nop_ret_trace 0x5000 1))"
  using TraceId_of_trace [where t = "nop_ret_trace 0x4000 1" and hasher = sum_hasher
      and ?t1.0 = "nop_ret_trace 0x4000 1" and ?t2.0 = "nop_ret_trace 0x4000 2"
      and ?t3.0 = "nop_ret_trace 0x4000 1" and ?t4.0 = "nop_ret_trace 0x5000 1"]
  by (simp add: nop_ret_trace_def nop_at_def ret_at_def placed_bytes_def trace_seed_def
      sum_hasher_def HashTraceInstructions_def Let_def)

section \<open>Successors of an instruction and the traces of a direct call (C5)\<close>

lemma FindRangeAligned_trace_heads:
  "trace_heads (snd (FindRangeAligned s p)) = trace_heads s"
  by (simp add: FindRangeAligned_def FindRangeAligned_slot_def FindRangeAligned_index_def Let_def
      split: option.splits)

lemma TryReadExecutable_trace_heads:
  "trace_heads (snd (TryReadExecutable s a)) = trace_heads s"
proof -
  obtain r s1 where f: "FindRangeAligned s (AlignDownToPage (a AND addr_mask s)) = (r, s1)"
    by (cases "FindRangeAligned s (AlignDownToPage (a AND addr_mask s))")
  then have "trace_heads s1 = trace_heads s"
    by (metis FindRangeAligned_trace_heads snd_conv)
  then show ?thesis
    using f by (simp add: TryReadExecutable_def Let_def split: option.splits)
qed

lemma ReadInstructionBytes_loop_trace_heads:
  "trace_heads (snd (ReadInstructionBytes_loop n a i bs s)) = trace_heads s"
proof (induction n arbitrary: i bs s)
  case 0
  then show ?case by simp
next
  case (Suc n)
  obtain b s1 where r: "TryReadExecutable s (a + i) = (b, s1)"
    by (cases "TryReadExecutable s (a + i)")
  then have "trace_heads s1 = trace_heads s"
    by (metis TryReadExecutable_trace_heads snd_conv)
  then show ?case
    using r Suc.IH by (cases b) simp_all
qed

lemma ReadInstructionBytes_trace_heads:
  "trace_heads (snd (ReadInstructionBytes arch s a)) = trace_heads s"
  by (simp add: ReadInstructionBytes_def ReadInstructionBytes_loop_trace_heads)

lemma ComputeCodeVersion_trace_heads:
  "trace_heads (snd (ComputeCodeVersion vc digest s a)) = trace_heads s"
proof -
  obtain r s1 where f: "FindRangeAligned s (AlignDownToPage (a AND addr_mask s)) = (r, s1)"
    by (cases "FindRangeAligned s (AlignDownToPage (a AND addr_mask s))")
  then have "trace_heads s1 = trace_heads s"
    by (metis FindRangeAligned_trace_heads snd_conv)
  then show ?thesis
    using f by (simp add: ComputeCodeVersion_def FindRange_def Let_def split: prod.splits)
qed

lemma ends_trace_no_successors:
  "ends_trace (category inst) \<Longrightarrow>
   AddSuccessorsToWorkList inst wl = wl \<and> AddSuccessorsToTraceList inst tls = tls"
  by (auto simp: ends_trace_def AddSuccessorsToWorkList_def AddSuccessorsToTraceList_def)

lemma direct_call_successors:
  "category inst = kCategoryDirectFunctionCall \<Longrightarrow>
   AddSuccessorsToWorkList inst wl = set_insert (branch_not_taken_pc inst) wl
   \<and> AddSuccessorsToTraceList inst tls =
       (if branch_taken_pc inst \<noteq> branch_not_taken_pc inst
        then set_insert (branch_taken_pc inst) tls else tls)"
  by (simp add: AddSuccessorsToWorkList_def AddSuccessorsToTraceList_def)

lemma code_range_caches:
  assumes "code_range s r lo hi m"
    and "\<forall>i. c i = None \<or> c i = Some r"
  shows "code_range (s\<lparr>last_map_cache := c\<rparr>) r lo hi m"
  using assms by (simp add: code_range_def)

lemma FindRangeAligned_code:
  assumes "code_range s r lo hi m" "page_aligned p" "lo \<le> p" "p < hi"
  shows "\<exists>s'. FindRangeAligned s p = (r, s') \<and> code_range s' r lo hi m
            \<and> trace_heads s' = trace_heads s"
proof -
  have c: "Contains (heap s r) p" using assms by (simp add: code_range_def Contains_def)
  have ix: "page_to_map s p = Some r" using assms by (simp add: code_range_def)
  have cache: "last_map_cache s i = None \<or> last_map_cache s i = Some r" for i
    using assms(1) by (simp add: code_range_def)
  let ?i = "unat (drop_bit 12 p AND kRangeCacheMask)"
  let ?c1 = "(last_map_cache s)(kRangeCacheSize := Some r)"
  let ?c2 = "(last_map_cache s)(kRangeCacheSize := Some r, ?i := Some r)"
  have k1: "code_range (s\<lparr>last_map_cache := ?c1\<rparr>) r lo hi m"
    using assms(1) cache by (intro code_range_caches) auto
  have k2: "code_range (s\<lparr>last_map_cache := ?c2\<rparr>) r lo hi m"
    using assms(1) cache by (intro code_range_caches) auto
  have idx: "FindRangeAligned_index s p ?i = (r, s\<lparr>last_map_cache := ?c2\<rparr>)"
    using ix by (simp add: FindRangeAligned_index_def)
  have slot: "\<exists>s'. FindRangeAligned_slot s p = (r, s') \<and> code_range s' r lo hi m
            \<and> trace_heads s' = trace_heads s"
  proof (cases "last_map_cache s ?i")
    case None
    then show ?thesis using idx k2 by (simp add: FindRangeAligned_slot_def Let_def)
  next
    case (Some r')
    then have "r' = r" using cache [of ?i] by simp
    then show ?thesis using Some c k1 by (simp add: FindRangeAligned_slot_def Let_def)
  qed
  show ?thesis
  proof (cases "last_map_cache s kRangeCacheSize")
    case None
    then show ?thesis using slot by (simp add: FindRangeAligned_def)
  next
    case (Some r')
    then have "r' = r" using cache [of kRangeCacheSize] by simp
    then show ?thesis using Some c assms(1) by (simp add: FindRangeAligned_def)
  qed
qed

lemma TryReadExecutable_code:
  assumes "code_range s r lo hi m" "lo \<le> a" "a < hi"
  shows "\<exists>s'. TryReadExecutable s a = (Some (m a), s') \<and> code_range s' r lo hi m
            \<and> trace_heads s' = trace_heads s"
proof -
  let ?p = "AlignDownToPage a"
  have mask: "a AND addr_mask s = a" using assms(1) by (simp add: code_range_def and_mask64)
  have al: "page_aligned lo" using assms(1) by (simp add: code_range_def)
  have lo: "lo \<le> ?p" using al assms(2) by (rule aligned_le_AlignDown)
  have hi: "?p < hi" using AlignDown_le [of a] assms(3) by (meson le_less_trans)
  obtain s' where f: "FindRangeAligned s ?p = (r, s')" and c: "code_range s' r lo hi m"
    and t: "trace_heads s' = trace_heads s"
    using FindRangeAligned_code [OF assms(1) AlignDown_aligned lo hi] by blast
  have "Read (heap s' r) a = Some (m a)"
    using c assms(2,3) by (simp add: code_range_def Read_def Contains_def)
  moreover have "CanExecuteAligned s' ?p"
    using c lo hi AlignDown_aligned [of a] by (simp add: code_range_def CanExecuteAligned_def)
  ultimately show ?thesis
    using f c t mask by (simp add: TryReadExecutable_def Let_def)
qed

lemma ReadInstructionBytes_loop_code:
  "code_range s r lo hi m \<Longrightarrow> lo \<le> a + i \<Longrightarrow> unat (a + i) + n \<le> unat hi \<Longrightarrow>
   \<exists>s'. ReadInstructionBytes_loop n a i acc s = (acc @ load_bytes m (a + i) n, s')
        \<and> code_range s' r lo hi m \<and> trace_heads s' = trace_heads s"
proof (induction n arbitrary: i acc s)
  case 0
  then show ?case by simp
next
  case (Suc n)
  have lt: "a + i < hi" using Suc.prems(3) by (simp add: word_less_nat_alt)
  obtain s1 where r: "TryReadExecutable s (a + i) = (Some (m (a + i)), s1)"
    and c1: "code_range s1 r lo hi m" and t1: "trace_heads s1 = trace_heads s"
    using TryReadExecutable_code [OF Suc.prems(1,2) lt] by blast
  have u: "unat (a + i + 1) = unat (a + i) + 1" using lt by (rule unat_succ)
  have eq: "a + (i + 1) = a + i + 1" by simp
  have lo': "lo \<le> a + (i + 1)"
    using Suc.prems(2) u unfolding eq by (simp add: word_le_nat_alt)
  have hi': "unat (a + (i + 1)) + n \<le> unat hi" using Suc.prems(3) u unfolding eq by simp
  from Suc.IH [OF c1 lo' hi', of "acc @ [m (a + i)]"]
  obtain s' where "ReadInstructionBytes_loop n a (i + 1) (acc @ [m (a + i)]) s1
        = ((acc @ [m (a + i)]) @ load_bytes m (a + (i + 1)) n, s')"
    and "code_range s' r lo hi m" and "trace_heads s' = trace_heads s1" by blast
  then show ?case using r t1 by (simp add: eq)
qed

lemma ReadInstructionBytes_code:
  assumes "code_range s r lo hi m" "lo \<le> a" "unat a + MaxInstructionSize arch \<le> unat hi"
  shows "\<exists>s'. ReadInstructionBytes arch s a = (load_bytes m a (MaxInstructionSize arch), s')
        \<and> code_range s' r lo hi m \<and> trace_heads s' = trace_heads s"
  using ReadInstructionBytes_loop_code [of s r lo hi m a 0 "MaxInstructionSize arch" "[]"] assms
  by (simp add: ReadInstructionBytes_def)

lemma ComputeCodeVersion_code:
  assumes "code_range s r lo hi m" "lo \<le> a" "a < hi"
  shows "\<exists>v s'. ComputeCodeVersion vc digest s a = (v, s') \<and> code_range s' r lo hi m
        \<and> trace_heads s' = trace_heads s"
proof (cases vc)
  case False
  then show ?thesis using assms(1) by (simp add: ComputeCodeVersion_def)
next
  case True
  let ?p = "AlignDownToPage a"
  have mask: "a AND addr_mask s = a" using assms(1) by (simp add: code_range_def and_mask64)
  have al: "page_aligned lo" using assms(1) by (simp add: code_range_def)
  have lo: "lo \<le> ?p" using al assms(2) by (rule aligned_le_AlignDown)
  have hi: "?p < hi" using AlignDown_le [of a] assms(3) by (meson le_less_trans)
  obtain s1 where f: "FindRangeAligned s ?p = (r, s1)" and c: "code_range s1 r lo hi m"
    and t: "trace_heads s1 = trace_heads s"
    using FindRangeAligned_code [OF assms(1) AlignDown_aligned lo hi] by blast
  obtain v r' where cv: "ComputeCodeVersion_range digest (heap s1 r) = (v, r')"
    by (cases "ComputeCodeVersion_range digest (heap s1 r)")
  then have same: "is_valid r' = is_valid (heap s1 r)" "base_address r' = base_address (heap s1 r)"
    "limit_address r' = limit_address (heap s1 r)" "bytes_at r' = bytes_at (heap s1 r)"
    by (auto simp: ComputeCodeVersion_range_def split: option.splits)
  have "code_range (s1\<lparr>heap := (heap s1)(r := r')\<rparr>) r lo hi m"
    using c same by (simp add: code_range_def)
  then show ?thesis
    using True f cv t mask by (simp add: ComputeCodeVersion_def FindRange_def Let_def)
qed

lemma MarkAsTraceHead_code:
  "code_range s r lo hi m \<Longrightarrow> code_range (MarkAsTraceHead s head) r lo hi m"
  by (simp add: code_range_def MarkAsTraceHead_def)

lemma decode_work_list_end:
  assumes c: "code_range s r lo hi m" "lo \<le> a" "unat a + MaxInstructionSize arch \<le> unat hi"
    and new: "\<not> map_count (instructions trace) a"
    and dec: "DecodeInstruction arch a (load_bytes m a (MaxInstructionSize arch)) = (ok, inst)"
      "\<not> ok \<or> ends_trace (category inst)"
  shows "\<exists>s'. decode_work_list arch [a] tls trace s =
       Some (tls, trace\<lparr>instructions := map_assign (instructions trace) a inst\<rparr>, s')
     \<and> code_range s' r lo hi m \<and> trace_heads s' = trace_heads s"
proof -
  obtain s1 where r: "ReadInstructionBytes arch s a = (load_bytes m a (MaxInstructionSize arch), s1)"
    and c1: "code_range s1 r lo hi m" and t1: "trace_heads s1 = trace_heads s"
    using ReadInstructionBytes_code [OF c] by blast
  show ?thesis
  proof (cases ok)
    case False
    then show ?thesis
      using new r dec(1) c1 t1
      by (simp add: decode_work_list.simps [of arch "[a]"] decode_work_list.simps [of arch "[]"])
  next
    case True
    then have "ends_trace (category inst)" using dec(2) by simp
    then show ?thesis
      using new r dec(1) True c1 t1 ends_trace_no_successors [of inst]
      by (simp add: decode_work_list.simps [of arch "[a]"] decode_work_list.simps [of arch "[]"])
  qed
qed

lemma DecodeTraces_direct_call:
  assumes c: "code_range s r lo hi m" "lo \<le> 0x4000"
      "unat (0x8000 :: u64) + MaxInstructionSize arch \<le> unat hi" "0x8000 < hi"
    and heads: "0x4000 \<notin> trace_heads s" "0x8000 \<notin> trace_heads s"
    and call: "DecodeInstruction arch 0x4000 (load_bytes m 0x4000 (MaxInstructionSize arch))
        = (True, call)"
      "category call = kCategoryDirectFunctionCall"
      "branch_taken_pc call = 0x8000" "branch_not_taken_pc call = 0x4010"
    and site: "DecodeInstruction arch 0x4010 (load_bytes m 0x4010 (MaxInstructionSize arch))
        = (ok1, i1)" "\<not> ok1 \<or> ends_trace (category i1)"
    and callee: "DecodeInstruction arch 0x8000 (load_bytes m 0x8000 (MaxInstructionSize arch))
        = (ok2, i2)" "\<not> ok2 \<or> ends_trace (category i2)"
  shows "map_option (\<lambda>res. map pc (fst res)) (DecodeTraces vc digest hasher arch s 0x4000)
     = Some [0x4000, 0x8000]"
proof -
  let ?n = "MaxInstructionSize arch"
  have hi8: "unat (0x8000 :: u64) + ?n \<le> unat hi" by (rule c(3))
  then have hi4: "unat (0x4000 :: u64) + ?n \<le> unat hi" "unat (0x4010 :: u64) + ?n \<le> unat hi"
    by simp_all
  have lt: "(0x4000 :: u64) < hi" "(0x8000 :: u64) < hi"
    using c(4) by (simp_all add: word_less_nat_alt)
  have lo: "lo \<le> 0x4010" "lo \<le> 0x8000"
    using c(2) by (simp_all add: word_le_nat_alt)
  have c0: "code_range (MarkAsTraceHead s 0x4000) r lo hi m" using c(1) by (rule MarkAsTraceHead_code)
  obtain v1 s1 where c1: "ComputeCodeVersion vc digest (MarkAsTraceHead s 0x4000) 0x4000 = (v1, s1)"
    and r1: "code_range s1 r lo hi m" and h1: "trace_heads s1 = insert 0x4000 (trace_heads s)"
    using ComputeCodeVersion_code [OF c0 c(2) lt(1), of vc digest]
    by (auto simp: MarkAsTraceHead_def)
  define t0 where "t0 = \<lparr>pc = 0x4000, trace_code_version = v1, id = \<lparr>hash1 = 0, hash2 = 0\<rparr>,
      instructions = []\<rparr>"
  obtain s2 where rd: "ReadInstructionBytes arch s1 0x4000 = (load_bytes m 0x4000 ?n, s2)"
    and r2: "code_range s2 r lo hi m" and h2: "trace_heads s2 = trace_heads s1"
    using ReadInstructionBytes_code [OF r1 c(2) hi4(1)] by blast
  define t1 where "t1 = t0\<lparr>instructions := [(0x4000, call)]\<rparr>"
  have succ: "AddSuccessorsToWorkList call [] = [0x4010]" "AddSuccessorsToTraceList call [] = [0x8000]"
    using direct_call_successors [OF call(2)] call(3,4) by (simp_all add: set_insert_def)
  have nc: "\<not> map_count (instructions t1) 0x4010"
    by (simp add: t1_def map_count_def)
  define T1 where "T1 = t1\<lparr>instructions := map_assign (instructions t1) 0x4010 i1\<rparr>"
  obtain s3 where in1: "decode_work_list arch [0x4010] [0x8000] t1 s2 = Some ([0x8000], T1, s3)"
    and r3: "code_range s3 r lo hi m" and h3: "trace_heads s3 = trace_heads s2"
    using decode_work_list_end [OF r2 lo(1) hi4(2) nc site, of "[0x8000]"] unfolding T1_def by blast
  have inner1: "decode_work_list arch [0x4000] [] t0 s1 = Some ([0x8000], T1, s3)"
    using rd call(1) succ in1
    by (simp add: decode_work_list.simps [of arch "[0x4000]"] t0_def t1_def map_count_def)
  have c3: "code_range (MarkAsTraceHead s3 0x8000) r lo hi m" using r3 by (rule MarkAsTraceHead_code)
  obtain v2 s4 where c2: "ComputeCodeVersion vc digest (MarkAsTraceHead s3 0x8000) 0x8000 = (v2, s4)"
    and r4: "code_range s4 r lo hi m"
    using ComputeCodeVersion_code [OF c3 lo(2) lt(2), of vc digest] by blast
  define u0 where "u0 = \<lparr>pc = 0x8000, trace_code_version = v2, id = \<lparr>hash1 = 0, hash2 = 0\<rparr>,
      instructions = []\<rparr>"
  define U1 where "U1 = u0\<lparr>instructions := map_assign (instructions u0) 0x8000 i2\<rparr>"
  have nc2: "\<not> map_count (instructions u0) 0x8000"
    by (simp add: u0_def map_count_def)
  obtain s5 where inner2: "decode_work_list arch [0x8000] [] u0 s4 = Some ([], U1, s5)"
    using decode_work_list_end [OF r4 lo(2) hi8 nc2 callee, of "[]"] unfolding U1_def by blast
  have not_head: "\<not> IsMarkedTraceHead s3 0x8000"
    using h1 h2 h3 heads(2) by (simp add: IsMarkedTraceHead_def)
  have outer2: "decode_trace_list vc digest hasher arch [0x8000]
        [T1\<lparr>id := HashTraceInstructions hasher T1\<rparr>] s3
      = Some ([T1\<lparr>id := HashTraceInstructions hasher T1\<rparr>,
               U1\<lparr>id := HashTraceInstructions hasher U1\<rparr>], s5)"
    using not_head c2 inner2
    by (simp add: decode_trace_list.simps [of vc digest hasher arch "[0x8000]"]
        decode_trace_list.simps [of vc digest hasher arch "[]"] u0_def)
  have "\<not> IsMarkedTraceHead s 0x4000"
    using heads(1) by (simp add: IsMarkedTraceHead_def)
  then have "DecodeTraces vc digest hasher arch s 0x4000
      = Some ([T1\<lparr>id := HashTraceInstructions hasher T1\<rparr>,
               U1\<lparr>id := HashTraceInstructions hasher U1\<rparr>], s5)"
    using c1 inner1 outer2
    by (simp add: DecodeTraces_def decode_trace_list.simps [of vc digest hasher arch "[0x4000]"]
        t0_def)
  then show ?thesis
    by (simp add: T1_def t1_def t0_def U1_def u0_def)
qed

lemma call_space_built:
  "after_calls False
     [CallAddMap 0x4000 0x5000, CallTryWrite 0x4000 [0xE8, 0x00, 0x80], CallTryWrite 0x4010 [0xC3],
      CallTryWrite 0x8000 [0xC3], CallSetPermissions 0x4000 0x5000 True True True]
     empty_space64 = Some call_space"
  by (simp add: empty_space64_def call_space_def eval_defs insert_commute)

lemma aligned_between_0x4000_0x9000:
  assumes "page_aligned p" "0x4000 \<le> p" "p < 0x9000"
  shows "p = 0x4000 \<or> p = 0x5000 \<or> p = 0x6000 \<or> p = 0x7000 \<or> p = 0x8000"
proof -
  obtain k where k: "unat p = 4096 * k"
    using assms(1) unfolding page_aligned_def by (auto simp: mod_eq_0_iff_dvd)
  have "16384 \<le> unat p" using assms(2) by (simp add: word_le_nat_alt)
  moreover have "unat p < 36864" using assms(3) by (simp add: word_less_nat_alt)
  ultimately have "k = 4 \<or> k = 5 \<or> k = 6 \<or> k = 7 \<or> k = 8" using k by auto
  then have "unat p = 16384 \<or> unat p = 20480 \<or> unat p = 24576 \<or> unat p = 28672 \<or> unat p = 32768"
    using k by auto
  then show ?thesis by (auto simp: word_unat_eq_iff)
qed

lemma call_space_code_range: "code_range call_space 2 0x4000 0x9000 call_code"
proof -
  have "page_to_map call_space p = Some 2 \<and> p \<in> page_is_executable call_space"
    if "page_aligned p \<and> 0x4000 \<le> p \<and> p < 0x9000" for p
  proof -
    have "p = 0x4000 \<or> p = 0x5000 \<or> p = 0x6000 \<or> p = 0x7000 \<or> p = 0x8000"
      using that aligned_between_0x4000_0x9000 by blast
    then show ?thesis by (auto simp: call_space_def)
  qed
  moreover have "page_aligned (0x4000 :: u64)" by (simp add: page_aligned_def)
  moreover have "addr_mask call_space = 0xFFFFFFFFFFFFFFFF \<and> is_valid (heap call_space 2)
      \<and> base_address (heap call_space 2) = 0x4000 \<and> limit_address (heap call_space 2) = 0x9000
      \<and> bytes_at (heap call_space 2) = call_code
      \<and> (\<forall>i. last_map_cache call_space i = None \<or> last_map_cache call_space i = Some 2)"
    by (simp add: call_space_def call_code_def range_defs)
  ultimately show ?thesis unfolding code_range_def by blast
qed

text \<open>C5. A direct call puts its not-taken PC (the return site) on the work list of the
  current trace and its taken PC (the callee) on the list of traces iff the two differ;
  an indirect jump, a return, an asynchronous hypercall, an error and an invalid
  instruction put nothing on either list. So, where the code lies in a valid executable
  range of a 64-bit space, neither \<open>0x4000\<close> nor \<open>0x8000\<close> is a trace head, the bytes read at
  \<open>0x4000\<close> decode to a direct call to \<open>0x8000\<close> with return site \<open>0x4010\<close>, and the bytes
  read at \<open>0x4010\<close> and at \<open>0x8000\<close> decode to instructions that end their traces (or fail to
  decode), decoding from \<open>0x4000\<close> returns exactly two traces, with entry PCs \<open>0x4000\<close> and
  \<open>0x8000\<close>.\<close>

theorem direct_call_successors_and_two_traces:
  "(category inst = kCategoryDirectFunctionCall \<longrightarrow>
      AddSuccessorsToWorkList inst wl = set_insert (branch_not_taken_pc inst) wl
      \<and> AddSuccessorsToTraceList inst tls =
          (if branch_taken_pc inst \<noteq> branch_not_taken_pc inst
           then set_insert (branch_taken_pc inst) tls else tls))
   \<and> (ends_trace (category inst') \<longrightarrow>
        AddSuccessorsToWorkList inst' wl = wl \<and> AddSuccessorsToTraceList inst' tls = tls)
   \<and> (code_range s r lo hi m \<and> lo \<le> 0x4000 \<and> 0x8000 < hi
        \<and> unat (0x8000 :: u64) + MaxInstructionSize arch \<le> unat hi
        \<and> 0x4000 \<notin> trace_heads s \<and> 0x8000 \<notin> trace_heads s
        \<and> DecodeInstruction arch 0x4000 (load_bytes m 0x4000 (MaxInstructionSize arch))
            = (True, call)
        \<and> category call = kCategoryDirectFunctionCall
        \<and> branch_taken_pc call = 0x8000 \<and> branch_not_taken_pc call = 0x4010
        \<and> DecodeInstruction arch 0x4010 (load_bytes m 0x4010 (MaxInstructionSize arch))
            = (ok1, i1)
        \<and> (\<not> ok1 \<or> ends_trace (category i1))
        \<and> DecodeInstruction arch 0x8000 (load_bytes m 0x8000 (MaxInstructionSize arch))
            = (ok2, i2)
        \<and> (\<not> ok2 \<or> ends_trace (category i2))
      \<longrightarrow> map_option (\<lambda>res. map pc (fst res)) (DecodeTraces vc digest hasher arch s 0x4000)
            = Some [0x4000, 0x8000])"
  using direct_call_successors [of inst wl tls] ends_trace_no_successors [of inst' wl tls]
    DecodeTraces_direct_call [of s r lo hi m arch call ok1 i1 ok2 i2 vc digest hasher]
  by blast

theorem direct_call_successors_and_two_traces_witness:
  "after_calls False
     [CallAddMap 0x4000 0x5000, CallTryWrite 0x4000 [0xE8, 0x00, 0x80], CallTryWrite 0x4010 [0xC3],
      CallTryWrite 0x8000 [0xC3], CallSetPermissions 0x4000 0x5000 True True True]
     empty_space64 = Some call_space
   \<and> code_range call_space 2 0x4000 0x9000 call_code
   \<and> load_bytes call_code 0x4000 (MaxInstructionSize toy_arch)
       = [0xE8, 0x00, 0x80, 0, 0, 0, 0, 0, 0, 0, 0, 0, 0, 0, 0, 0]
   \<and> DecodeInstruction toy_arch 0x4000 (load_bytes call_code 0x4000 (MaxInstructionSize toy_arch))
       = (True, toy_call 0x4000 [0xE8, 0x00, 0x80, 0, 0, 0, 0, 0, 0, 0, 0, 0, 0, 0, 0, 0])
   \<and> DecodeInstruction toy_arch 0x4000 [] \<noteq> (True, toy_call 0x4000 [])
   \<and> category (toy_call 0x4000 [0xE8, 0x00, 0x80, 0, 0, 0, 0, 0, 0, 0, 0, 0, 0, 0, 0, 0])
       = kCategoryDirectFunctionCall
   \<and> AddSuccessorsToWorkList
        (toy_call 0x4000 [0xE8, 0x00, 0x80, 0, 0, 0, 0, 0, 0, 0, 0, 0, 0, 0, 0, 0]) [] = [0x4010]
   \<and> AddSuccessorsToTraceList
        (toy_call 0x4000 [0xE8, 0x00, 0x80, 0, 0, 0, 0, 0, 0, 0, 0, 0, 0, 0, 0, 0]) [] = [0x8000]
   \<and> DecodeInstruction toy_arch 0x4010 (load_bytes call_code 0x4010 (MaxInstructionSize toy_arch))
       = (True, ret_at 0x4010)
   \<and> DecodeInstruction toy_arch 0x8000 (load_bytes call_code 0x8000 (MaxInstructionSize toy_arch))
       = (True, ret_at 0x8000)
   \<and> ends_trace (category (ret_at 0x4010))
   \<and> AddSuccessorsToWorkList (ret_at 0x4010) [] = []
   \<and> AddSuccessorsToTraceList (ret_at 0x4010) [] = []
   \<and> map_option (\<lambda>res. map pc (fst res))
        (DecodeTraces False (\<lambda>_. 0) sum_hasher toy_arch call_space 0x4000)
       = Some [0x4000, 0x8000]"
proof -
  let ?bs = "[0xE8, 0x00, 0x80, 0, 0, 0, 0, 0, 0, 0, 0, 0, 0, 0, 0, 0] :: u8 list"
  have n: "MaxInstructionSize toy_arch = 16" by (simp add: toy_arch_def)
  have b4: "load_bytes call_code 0x4000 (MaxInstructionSize toy_arch) = ?bs"
    unfolding n by (simp add: call_code_def load_bytes_numeral)
  have b1: "load_bytes call_code 0x4010 (MaxInstructionSize toy_arch) = [0xC3, 0, 0, 0, 0, 0, 0, 0, 0, 0, 0, 0, 0, 0, 0, 0]"
    unfolding n by (simp add: call_code_def load_bytes_numeral)
  have b8: "load_bytes call_code 0x8000 (MaxInstructionSize toy_arch) = [0xC3, 0, 0, 0, 0, 0, 0, 0, 0, 0, 0, 0, 0, 0, 0, 0]"
    unfolding n by (simp add: call_code_def load_bytes_numeral)
  have d4: "DecodeInstruction toy_arch 0x4000 ?bs = (True, toy_call 0x4000 ?bs)"
    by (simp add: toy_arch_def)
  have d0: "DecodeInstruction toy_arch 0x4000 [] \<noteq> (True, toy_call 0x4000 [])"
    by (simp add: toy_arch_def)
  have d1: "DecodeInstruction toy_arch 0x4010 ([0xC3, 0, 0, 0, 0, 0, 0, 0, 0, 0, 0, 0, 0, 0, 0, 0]) = (True, ret_at 0x4010)"
    "DecodeInstruction toy_arch 0x8000 ([0xC3, 0, 0, 0, 0, 0, 0, 0, 0, 0, 0, 0, 0, 0, 0, 0]) = (True, ret_at 0x8000)"
    by (simp_all add: toy_arch_def)
  have call: "category (toy_call 0x4000 ?bs) = kCategoryDirectFunctionCall"
    "branch_taken_pc (toy_call 0x4000 ?bs) = 0x8000"
    "branch_not_taken_pc (toy_call 0x4000 ?bs) = 0x4010"
    by (simp_all add: toy_call_def)
  have ret: "ends_trace (category (ret_at 0x4010))" "ends_trace (category (ret_at 0x8000))"
    by (simp_all add: ret_at_def ends_trace_def)
  have bounds: "(0x4000 :: u64) \<le> 0x4000" "(0x8000 :: u64) < 0x9000"
    "unat (0x8000 :: u64) + MaxInstructionSize toy_arch \<le> unat (0x9000 :: u64)"
    "0x4000 \<notin> trace_heads call_space" "0x8000 \<notin> trace_heads call_space"
    unfolding n by (simp_all add: call_space_def)
  note at_input = direct_call_successors_and_two_traces
      [where inst = "toy_call 0x4000 ?bs" and inst' = "ret_at 0x4010" and wl = "[]" and tls = "[]"
        and s = call_space and r = 2 and lo = "0x4000" and hi = "0x9000" and m = call_code
        and arch = toy_arch and call = "toy_call 0x4000 ?bs"
        and ?ok1.0 = True and ?i1.0 = "ret_at 0x4010" and ?ok2.0 = True and ?i2.0 = "ret_at 0x8000"
        and vc = False and digest = "\<lambda>_. 0" and hasher = sum_hasher]
  have succ: "AddSuccessorsToWorkList (toy_call 0x4000 ?bs) [] = [0x4010]"
    "AddSuccessorsToTraceList (toy_call 0x4000 ?bs) [] = [0x8000]"
    "AddSuccessorsToWorkList (ret_at 0x4010) [] = []"
    "AddSuccessorsToTraceList (ret_at 0x4010) [] = []"
    using at_input call ret by (simp_all add: set_insert_def)
  have "map_option (\<lambda>res. map pc (fst res))
        (DecodeTraces False (\<lambda>_. 0) sum_hasher toy_arch call_space 0x4000)
       = Some [0x4000, 0x8000]"
    using at_input call_space_code_range bounds call ret d4 d1 unfolding b4 b1 b8 by blast
  then show ?thesis
    using call_space_built call_space_code_range b4 b1 b8 d4 d0 d1 call ret succ by simp
qed

section \<open>Accesses at a page boundary (C6)\<close>

lemma AddMap_rw_page: "AddMap empty_space64 0x1000 0x1000 = Some (Inr rw_page_space)"
  by (simp add: empty_space64_def rw_page_space_def eval_defs)

text \<open>The claim of C6 fails where it says that the 4-byte write at \<open>0x1FFE\<close> succeeds: its
  last two bytes fall on the unmapped page \<open>0x2000\<close>, and \<open>TryWrite\<close> returns \<open>false\<close>.\<close>

theorem u32_write_at_0x1FFE_fails:
  "map_option fst (TryWrite_u32 False rw_page_space 0x1FFE 0xDEADBEEF) = Some False"
  by (simp add: rw_page_space_def eval_defs)

text \<open>C6, amended. On the address space with the single readable and writable page
  \<open>[0x1000, 0x2000)\<close>, the 4-byte write of \<open>0xDEADBEEF\<close> at \<open>0x1FFE\<close> fails, as it spans the
  page boundary into the unmapped address \<open>0x2000\<close>; at \<open>0x1FFC\<close> it succeeds and the 4-byte
  read at \<open>0x1FFC\<close> then returns \<open>0xDEADBEEF\<close>; the 2-byte write of \<open>0xABCD\<close> at \<open>0x1FFF\<close>
  fails, for the same reason.\<close>

theorem page_boundary_accesses:
  "AddMap empty_space64 0x1000 0x1000 = Some (Inr rw_page_space)
   \<and> map_option fst (TryWrite_u32 vc rw_page_space 0x1FFE 0xDEADBEEF) = Some False
   \<and> Option.bind (TryWrite_u32 vc rw_page_space 0x1FFC 0xDEADBEEF)
        (\<lambda>(ok, s). map_option (\<lambda>(ok', val, _). (ok, ok', val)) (TryRead_u32 s 0x1FFC))
       = Some (True, True, Some 0xDEADBEEF)
   \<and> map_option fst (TryWrite_u16 vc rw_page_space 0x1FFF 0xABCD) = Some False
   \<and> \<not> IsMapped rw_page_space 0x2000 \<and> \<not> CanWrite rw_page_space 0x2000"
proof -
  have "map_option fst (TryWrite_u32 vc rw_page_space 0x1FFE 0xDEADBEEF) = Some False"
    by (simp add: rw_page_space_def eval_defs)
  moreover have "Option.bind (TryWrite_u32 vc rw_page_space 0x1FFC 0xDEADBEEF)
        (\<lambda>(ok, s). map_option (\<lambda>(ok', val, _). (ok, ok', val)) (TryRead_u32 s 0x1FFC))
       = Some (True, True, Some 0xDEADBEEF)"
    by (simp add: rw_page_space_def eval_defs)
  moreover have "map_option fst (TryWrite_u16 vc rw_page_space 0x1FFF 0xABCD) = Some False"
    by (simp add: rw_page_space_def eval_defs)
  moreover have "\<not> IsMapped rw_page_space 0x2000 \<and> \<not> CanWrite rw_page_space 0x2000"
    by (simp add: rw_page_space_def IsMapped_def CanWrite_def page_defs)
  ultimately show ?thesis
    using AddMap_rw_page by simp
qed

section \<open>A killed address space (C7)\<close>

lemma Kill_rejects_AddMap: "AddMap (Kill s) vbase sz = Some (Inr (Kill s))"
  by (simp add: AddMap_def CreateMap_def Kill_def Let_def)

lemma Kill_FindRangeAligned: "FindRangeAligned (Kill s) page_addr = (invalid s, Kill s)"
  by (simp add: Kill_def find_defs)

lemma Kill_TryRead_u8_fails:
  "\<not> is_valid (heap s (invalid s)) \<Longrightarrow> fst (TryRead_u8 (Kill s) addr) = None"
  using Kill_FindRangeAligned [of s]
  by (simp add: TryRead_u8_def FindRange_def Read_def Kill_def)

text \<open>C7, at the failing input. \<open>Kill\<close> empties \<open>maps\<close> and \<open>page_to_map\<close> and leaves
  \<open>wnx_page_to_map\<close> as it was, so in the killed space the typed writes still find the range
  of the writable page \<open>0x1000\<close> and return \<open>true\<close>; the write through the byte path
  returns \<open>false\<close>.\<close>

theorem typed_write_after_Kill:
  "IsDead (Kill rw_page_space)
   \<and> map_option fst (TryWrite_u8 vc (Kill rw_page_space) 0x1000 0x41) = Some True
   \<and> map_option fst (TryWrite_u32 vc (Kill rw_page_space) 0x1000 0xDEADBEEF) = Some True
   \<and> map_option fst (TryWrite vc (Kill rw_page_space) 0x1000 [0x41]) = Some False"
proof -
  have "map_option fst (TryWrite_u8 vc (Kill rw_page_space) 0x1000 0x41) = Some True"
    by (simp add: rw_page_space_def eval_defs Kill_def)
  moreover have "map_option fst (TryWrite_u32 vc (Kill rw_page_space) 0x1000 0xDEADBEEF) = Some True"
    by (simp add: rw_page_space_def eval_defs Kill_def)
  moreover have "map_option fst (TryWrite vc (Kill rw_page_space) 0x1000 [0x41]) = Some False"
    by (simp add: rw_page_space_def eval_defs Kill_def)
  ultimately show ?thesis
    by (simp add: IsDead_def Kill_def)
qed

section \<open>Writes to executable pages (C1)\<close>

lemma mixed_page_space_built:
  "Option.bind (AddMap empty_space64 0x1000 0x2000)
     (\<lambda>r. case r of Inl e \<Rightarrow> None | Inr s \<Rightarrow> SetPermissions s 0x2000 0x1000 True True True)
   = Some mixed_page_space"
  by (simp add: empty_space64_def mixed_page_space_def eval_defs)

lemma byte_path_write_invalidates:
  "(case ComputeCodeVersion True digest (MarkAsTraceHead mixed_page_space 0x2000) 0x2000 of
      (v1, s1) \<Rightarrow>
        map_option (\<lambda>(ok, s2). (ok, trace_heads s2, code_version (heap s2 2)))
          (TryWrite_u8 True s1 0x2000 0xCC))
   = Some (True, {}, None)"
  by (simp add: mixed_page_space_def eval_defs MarkAsTraceHead_def ComputeCodeVersion_def)

text \<open>C1, at the failing input. With code versioning enabled, in the space whose range
  \<open>[0x1000, 0x3000)\<close> has the writable page \<open>0x1000\<close> and the writable and executable page
  \<open>0x2000\<close>: \<open>0x2000\<close> is marked as a trace head and its code version is computed, a byte
  is written at \<open>0x1000\<close>, and then a byte is written at \<open>0x2000\<close>. Both writes return
  \<open>true\<close>, the page \<open>0x2000\<close> is executable at the second write and its byte changes from
  \<open>0\<close> to \<open>0xCC\<close>; yet the trace heads are not cleared and the code version computed for
  \<open>0x2000\<close> afterwards is the one computed before, whatever the digest function is.\<close>

theorem typed_write_to_executable_page_keeps_version:
  "(case ComputeCodeVersion True digest (MarkAsTraceHead mixed_page_space 0x2000) 0x2000 of
      (v1, s1) \<Rightarrow>
        Option.bind (TryWrite_u8 True s1 0x1000 0x41)
          (\<lambda>(ok1, s2).
             Option.bind (TryWrite_u8 True s2 0x2000 0xCC)
               (\<lambda>(ok2, s3).
                  Some (ok1, ok2, CanExecute s2 0x2000, fst (TryRead_u8 s1 0x2000),
                        fst (TryRead_u8 s3 0x2000), trace_heads s3,
                        fst (ComputeCodeVersion True digest s3 0x2000) = v1))))
   = Some (True, True, True, Some 0, Some 0xCC, {0x2000}, True)"
  by (simp add: mixed_page_space_def eval_defs MarkAsTraceHead_def ComputeCodeVersion_def
      CanExecute_def)

section \<open>Reads of size zero (C10)\<close>

lemma read_bytes_done: "\<not> addr < next_end_addr \<Longrightarrow> read_bytes rng next_end_addr addr out = (True, addr, out)"
  by simp

lemma TryRead_pages_no_result:
  assumes "TryRead_pages p e a out s = Some y"
  shows "\<not> (page_aligned p \<and> 0xFFFFFFFFFFFFF000 < e \<and> a = e)"
proof (rule TryRead_pages.raw_induct
    [where P = "\<lambda>p e a out s y. \<not> (page_aligned p \<and> 0xFFFFFFFFFFFFF000 < e \<and> a = e)",
     OF _ assms], goal_cases)
  case (1 f p e a out s y)
  show ?case
  proof
    assume inv: "page_aligned p \<and> 0xFFFFFFFFFFFFF000 < e \<and> a = e"
    then have "p \<le> 0xFFFFFFFFFFFFF000" by (simp add: aligned_top)
    with inv have lt: "p < e" by (meson le_less_trans)
    obtain rng s1 where fr: "FindRangeAligned s p = (rng, s1)"
      by (cases "FindRangeAligned s p")
    have "\<not> e < min e (p + kPageSize)" by simp
    then have rb: "read_bytes (heap s1 rng) (min e (p + kPageSize)) e out = (True, e, out)"
      by (rule read_bytes_done)
    have "f (p + kPageSize) e e out s1 = Some y"
      using 1(2) lt fr rb inv by simp
    then have "\<not> (page_aligned (p + kPageSize) \<and> 0xFFFFFFFFFFFFF000 < e \<and> e = e)"
      by (rule 1(1))
    with inv show False by (simp add: aligned_next)
  qed
qed

lemma TryRead_pages_diverges:
  "page_aligned p \<Longrightarrow> 0xFFFFFFFFFFFFF000 < e \<Longrightarrow> TryRead_pages p e e out s = None"
  using TryRead_pages_no_result [of p e e out s] by (cases "TryRead_pages p e e out s") auto

lemma TryRead_zero_diverges:
  "0xFFFFFFFFFFFFF000 < addr AND addr_mask s \<Longrightarrow> TryRead s addr 0 = None"
  by (simp add: TryRead_def Let_def TryRead_pages_diverges AlignDown_aligned)

text \<open>C10, at the failing input. In the 64-bit space a read of size zero at
  \<open>0xFFFFFFFFFFFFFFFF\<close> never returns: \<open>end_addr\<close> is \<open>0xFFFFFFFFFFFFFFFF\<close>, every page address
  is below it, and \<open>page_addr += kPageSize\<close> wraps around from \<open>0xFFFFFFFFFFFFF000\<close> to \<open>0\<close>.\<close>

theorem TryRead_zero_at_top_never_returns:
  "TryRead empty_space64 0xFFFFFFFFFFFFFFFF 0 = None"
  by (rule TryRead_zero_diverges) (simp add: empty_space64_def)

text \<open>Everywhere else a read of size zero returns \<open>true\<close> and stores no byte, in any address
  space; only the cache of the last range found may change.\<close>

lemma TryRead_zero_returns:
  assumes "addr AND addr_mask s \<le> 0xFFFFFFFFFFFFF000"
  shows "TryRead s addr 0 = Some (True, [], s)
     \<or> TryRead s addr 0 = Some (True, [], snd (FindRangeAligned s (AlignDownToPage (addr AND addr_mask s))))"
proof -
  let ?a = "addr AND addr_mask s"
  let ?p = "AlignDownToPage ?a"
  show ?thesis
  proof (cases "?p < ?a")
    case False
    then show ?thesis
      by (simp add: TryRead_def Let_def TryRead_pages.simps [of ?p])
  next
    case True
    obtain rng s1 where fr: "FindRangeAligned s ?p = (rng, s1)"
      by (cases "FindRangeAligned s ?p")
    have rb: "read_bytes (heap s1 rng) (min ?a (?p + kPageSize)) ?a [] = (True, ?a, [])"
      by (rule read_bytes_done) simp
    have "unat ?a - unat ?p < 4096"
      by (simp add: unat_AlignDown flip: minus_mod_eq_div_mult)
    then have "\<not> ?p + kPageSize < ?a"
      using aligned_lt_next [OF AlignDown_aligned True assms] by simp
    then have "TryRead_pages (?p + kPageSize) ?a ?a [] s1 = Some (True, [], s1)"
      by (simp add: TryRead_pages.simps [of "?p + kPageSize"])
    then have "TryRead s addr 0 = Some (True, [], s1)"
      using True fr rb by (simp add: TryRead_def Let_def TryRead_pages.simps [of ?p])
    then show ?thesis using fr by simp
  qed
qed

section \<open>A write that faults on a later page (C9)\<close>

lemma written_bytes_empty: "n \<le> a \<Longrightarrow> written_bytes a n ins m = m"
  by (auto simp: written_bytes_def fun_eq_iff)

lemma write_bytes_all:
  assumes "is_valid (heap s r)" "base_address (heap s r) \<le> a" "n \<le> limit_address (heap s r)"
    "a \<le> n" "unat n - unat a \<le> length ins"
  shows "write_bytes r n a ins s =
     (True, n, drop (unat n - unat a) ins,
      s\<lparr>heap := (heap s)(r := (heap s r)\<lparr>bytes_at := written_bytes a n ins (bytes_at (heap s r))\<rparr>)\<rparr>)"
  using assms
proof (induction ins arbitrary: a s)
  case Nil
  then have "a = n" by (simp add: word_le_nat_alt word_unat_eq_iff)
  then show ?case by (simp add: written_bytes_empty)
next
  case (Cons b ins)
  show ?case
  proof (cases "a < n")
    case False
    with Cons.prems(4) have "a = n" by simp
    then show ?thesis by (simp add: written_bytes_empty)
  next
    case True
    let ?r' = "(heap s r)\<lparr>bytes_at := (bytes_at (heap s r))(a := b)\<rparr>"
    let ?s1 = "s\<lparr>heap := (heap s)(r := ?r')\<rparr>"
    have w: "Write (heap s r) a b = Some ?r'"
      using Cons.prems(1,2,3) True by (auto simp: Write_def Contains_def)
    have ua: "unat (a + 1) = unat a + 1" using True by (rule unat_succ)
    have lt: "unat a < unat n" using True by (simp add: word_less_nat_alt)
    have le1: "a \<le> a + 1" using ua by (simp add: word_le_nat_alt)
    have p1: "is_valid (heap ?s1 r)" using Cons.prems(1) by simp
    have p2: "base_address (heap ?s1 r) \<le> a + 1" using Cons.prems(2) le1 by simp
    have p3: "n \<le> limit_address (heap ?s1 r)" using Cons.prems(3) by simp
    have p4: "a + 1 \<le> n" using True by (simp add: inc_le)
    have p5: "unat n - unat (a + 1) \<le> length ins" using Cons.prems(5) ua by simp
    have drop_eq: "drop (unat n - unat (a + 1)) ins = drop (unat n - unat a) (b # ins)"
    proof -
      have "unat n - unat a = Suc (unat n - unat (a + 1))" using ua lt by simp
      then show ?thesis by simp
    qed
    have bytes_eq: "written_bytes (a + 1) n ins (bytes_at (heap ?s1 r))
        = written_bytes a n (b # ins) (bytes_at (heap s r))"
    proof (rule ext)
      fix x
      show "written_bytes (a + 1) n ins (bytes_at (heap ?s1 r)) x
        = written_bytes a n (b # ins) (bytes_at (heap s r)) x"
      proof (cases "x = a")
        case True
        then show ?thesis using lt ua \<open>a < n\<close> by (simp add: written_bytes_def word_le_nat_alt)
      next
        case False
        have "a + 1 \<le> x \<longleftrightarrow> a \<le> x"
          using False ua by (auto simp: word_le_nat_alt word_unat_eq_iff)
        moreover have "a \<le> x \<Longrightarrow> unat x - unat a = Suc (unat x - unat (a + 1))"
          using False ua by (auto simp: word_le_nat_alt word_unat_eq_iff)
        ultimately show ?thesis using False by (simp add: written_bytes_def)
      qed
    qed
    have bytes_eq': "written_bytes (a + 1) n ins ((bytes_at (heap s r))(a := b))
        = written_bytes a n (b # ins) (bytes_at (heap s r))"
      using bytes_eq by simp
    have "write_bytes r n a (b # ins) s = write_bytes r n (a + 1) ins ?s1"
      using True w by simp
    also have "\<dots> = (True, n, drop (unat n - unat (a + 1)) ins,
        ?s1\<lparr>heap := (heap ?s1)(r := (heap ?s1 r)\<lparr>bytes_at := written_bytes (a + 1) n ins (bytes_at (heap ?s1 r))\<rparr>)\<rparr>)"
      by (rule Cons.IH [OF p1 p2 p3 p4 p5])
    also have "\<dots> = (True, n, drop (unat n - unat a) (b # ins),
        s\<lparr>heap := (heap s)(r := (heap s r)\<lparr>bytes_at := written_bytes a n (b # ins) (bytes_at (heap s r))\<rparr>)\<rparr>)"
      by (simp add: drop_eq bytes_eq' del: drop_Suc_Cons)
    finally show ?thesis .
  qed
qed

lemma FindRangeAligned_frame:
  "FindRangeAligned s p = (r, s1) \<Longrightarrow> s1 = s\<lparr>last_map_cache := last_map_cache s1\<rparr>"
  by (auto simp: FindRangeAligned_def FindRangeAligned_slot_def FindRangeAligned_index_def Let_def
      split: option.splits if_splits)

lemma FindRangeAligned_caches:
  "FindRangeAligned s p = (r, s1) \<Longrightarrow> r \<noteq> invalid s \<Longrightarrow>
   last_map_cache s1 kRangeCacheSize = Some r"
  by (auto simp: FindRangeAligned_def FindRangeAligned_slot_def FindRangeAligned_index_def Let_def
      split: option.splits if_splits)

lemma FindRangeAligned_hit:
  "last_map_cache s kRangeCacheSize = Some r \<Longrightarrow> Contains (heap s r) p \<Longrightarrow>
   FindRangeAligned s p = (r, s)"
  by (simp add: FindRangeAligned_def)

lemma smc_check_fields:
  "last_map_cache (smc_check vc r p s) = last_map_cache s"
  "page_is_writable (smc_check vc r p s) = page_is_writable s"
  "r' \<noteq> r \<Longrightarrow> heap (smc_check vc r p s) r' = heap s r'"
  "is_valid (heap (smc_check vc r p s) r) = is_valid (heap s r)"
  "base_address (heap (smc_check vc r p s) r) = base_address (heap s r)"
  "limit_address (heap (smc_check vc r p s) r) = limit_address (heap s r)"
  "bytes_at (heap (smc_check vc r p s) r) = bytes_at (heap s r)"
  by (simp_all add: smc_check_def InvalidateCodeVersion_def)

lemma written_bytes_append:
  assumes "a \<le> n" "n \<le> q" "unat n - unat a \<le> length ins"
  shows "written_bytes n q (drop (unat n - unat a) ins) (written_bytes a n ins m)
     = written_bytes a q ins m"
proof (rule ext)
  fix x
  have an: "unat a \<le> unat n" using assms(1) by (simp add: word_le_nat_alt)
  show "written_bytes n q (drop (unat n - unat a) ins) (written_bytes a n ins m) x
     = written_bytes a q ins m x"
  proof (cases "n \<le> x \<and> x < q")
    case True
    then have "unat n \<le> unat x" by (simp add: word_le_nat_alt)
    then have "unat n - unat a + (unat x - unat n) = unat x - unat a" using an by simp
    moreover have "a \<le> x" using assms(1) True by (meson order_trans)
    ultimately show ?thesis using True assms(3) by (simp add: written_bytes_def)
  next
    case False
    then show ?thesis using assms(1,2) by (auto simp: written_bytes_def)
  qed
qed

lemma TryWrite_pages_fault:
  assumes "page_aligned p" "page_aligned q" "p \<le> q" "q < e" "p \<le> a"
    "p < q \<longrightarrow> a < p + kPageSize"
    "unat e = unat a + length ins"
    "p < q \<longrightarrow> fst (FindRangeAligned s p) = r
       \<and> last_map_cache (snd (FindRangeAligned s p)) kRangeCacheSize = Some r"
    "is_valid (heap s r)" "base_address (heap s r) \<le> a" "q \<le> limit_address (heap s r)"
    "\<forall>p'. page_aligned p' \<and> p \<le> p' \<and> p' < q \<longrightarrow> p' \<in> page_is_writable s"
    "q \<notin> page_is_writable s"
  shows "\<exists>s'. TryWrite_pages vc p e a ins s = Some (False, s')
     \<and> bytes_at (heap s' r) = written_bytes a q ins (bytes_at (heap s r))
     \<and> (\<forall>r'. r' \<noteq> r \<longrightarrow> heap s' r' = heap s r')"
  using assms
proof (induction "unat q - unat p" arbitrary: p a ins s rule: less_induct)
  case less
  show ?case
  proof (cases "p < q")
    case False
    then have pq: "p = q" using less.prems(3) by simp
    then have "TryWrite_pages vc p e a ins s = Some (False, s)"
      using less.prems(4,13) by (simp add: TryWrite_pages.simps [of vc q] CanWriteAligned_def)
    moreover have "written_bytes a q ins (bytes_at (heap s r)) = bytes_at (heap s r)"
      using pq less.prems(5) by (simp add: written_bytes_empty)
    ultimately show ?thesis by simp
  next
    case True
    let ?n = "p + kPageSize"
    have step: "unat ?n = unat p + 4096" "?n \<le> q"
      using aligned_step [OF less.prems(1,2) True] by simp_all
    have pe: "p < e" using True less.prems(4) by simp
    have can: "CanWriteAligned s p"
      using less.prems(1,12) True by (simp add: CanWriteAligned_def)
    obtain s1 where fr: "FindRangeAligned s p = (r, s1)"
      and c1: "last_map_cache s1 kRangeCacheSize = Some r"
      using less.prems(8) True by (cases "FindRangeAligned s p") auto
    have s1: "s1 = s\<lparr>last_map_cache := last_map_cache s1\<rparr>"
      using fr by (rule FindRangeAligned_frame)
    let ?s1' = "smc_check vc r p s1"
    have h1: "heap s1 = heap s" "page_is_writable s1 = page_is_writable s"
      by (subst s1, simp)+
    have an: "a \<le> ?n" using less.prems(6) True by simp
    have "?n < e" using step(2) less.prems(4) by (meson le_less_trans)
    then have ne: "min e ?n = ?n" by (intro min_absorb2 less_imp_le)
    have ua: "unat a \<le> unat ?n" using an by (simp add: word_le_nat_alt)
    have uq: "unat ?n \<le> unat q" using step(2) by (simp add: word_le_nat_alt)
    have ue: "unat q < unat e" using less.prems(4) by (simp add: word_less_nat_alt)
    have len: "unat ?n - unat a \<le> length ins" using less.prems(7) uq ue by simp
    have v1: "is_valid (heap ?s1' r)" "base_address (heap ?s1' r) \<le> a"
      "?n \<le> limit_address (heap ?s1' r)"
      using less.prems(9,10,11) step(2) h1 by (simp_all add: smc_check_fields)
    define s2 where "s2 = ?s1'\<lparr>heap := (heap ?s1')(r := (heap ?s1' r)
        \<lparr>bytes_at := written_bytes a ?n ins (bytes_at (heap ?s1' r))\<rparr>)\<rparr>"
    have wb: "write_bytes r ?n a ins ?s1' = (True, ?n, drop (unat ?n - unat a) ins, s2)"
      unfolding s2_def by (rule write_bytes_all [OF v1 an len])
    have unfold: "TryWrite_pages vc p e a ins s
        = TryWrite_pages vc ?n e ?n (drop (unat ?n - unat a) ins) s2"
      using pe can fr wb ne by (simp add: TryWrite_pages.simps [of vc p])
    have c2: "last_map_cache s2 kRangeCacheSize = Some r"
      using c1 by (simp add: s2_def smc_check_fields)
    have hr2: "is_valid (heap s2 r)" "base_address (heap s2 r) = base_address (heap s r)"
      "limit_address (heap s2 r) = limit_address (heap s r)"
      "bytes_at (heap s2 r) = written_bytes a ?n ins (bytes_at (heap s r))"
      using less.prems(9) h1 by (simp_all add: s2_def smc_check_fields)
    have other2: "\<And>r'. r' \<noteq> r \<Longrightarrow> heap s2 r' = heap s r'"
      using h1 by (simp add: s2_def smc_check_fields)
    have w2: "page_is_writable s2 = page_is_writable s"
      using h1 by (simp add: s2_def smc_check_fields)
    have meas: "unat q - unat ?n < unat q - unat p"
      using step(1) True by (simp add: word_less_nat_alt)
    have i1: "page_aligned ?n" using less.prems(1) by (rule aligned_next)
    have i6: "?n < q \<longrightarrow> ?n < ?n + kPageSize"
    proof
      assume "?n < q"
      from aligned_step(1) [OF i1 less.prems(2) this] show "?n < ?n + kPageSize"
        by (simp add: word_less_nat_alt)
    qed
    have i7: "unat e = unat ?n + length (drop (unat ?n - unat a) ins)"
      using less.prems(7) ua len by simp
    have i8: "?n < q \<longrightarrow> fst (FindRangeAligned s2 ?n) = r
       \<and> last_map_cache (snd (FindRangeAligned s2 ?n)) kRangeCacheSize = Some r"
    proof
      assume lt: "?n < q"
      have "base_address (heap s2 r) \<le> ?n"
        using hr2(2) less.prems(10) an by simp
      moreover have "?n < limit_address (heap s2 r)"
        using hr2(3) less.prems(11) lt by simp
      ultimately have "Contains (heap s2 r) ?n" by (simp add: Contains_def)
      then have "FindRangeAligned s2 ?n = (r, s2)" using c2 by (simp add: FindRangeAligned_hit)
      then show "fst (FindRangeAligned s2 ?n) = r
       \<and> last_map_cache (snd (FindRangeAligned s2 ?n)) kRangeCacheSize = Some r"
        using c2 by simp
    qed
    have i10: "base_address (heap s2 r) \<le> ?n" using hr2(2) less.prems(10) an by simp
    have i11: "q \<le> limit_address (heap s2 r)" using hr2(3) less.prems(11) by simp
    have pn: "p \<le> ?n" using step(1) by (simp add: word_le_nat_alt)
    have i12: "\<forall>p'. page_aligned p' \<and> ?n \<le> p' \<and> p' < q \<longrightarrow> p' \<in> page_is_writable s2"
      using less.prems(12) w2 pn by auto
    have i13: "q \<notin> page_is_writable s2" using less.prems(13) w2 by simp
    obtain s' where res: "TryWrite_pages vc ?n e ?n (drop (unat ?n - unat a) ins) s2 = Some (False, s')"
      and b: "bytes_at (heap s' r) = written_bytes ?n q (drop (unat ?n - unat a) ins) (bytes_at (heap s2 r))"
      and o: "\<forall>r'. r' \<noteq> r \<longrightarrow> heap s' r' = heap s2 r'"
      using less.hyps [OF meas i1 less.prems(2) step(2) less.prems(4) order_refl i6 i7 i8 hr2(1) i10 i11 i12 i13]
      by blast
    have "bytes_at (heap s' r) = written_bytes a q ins (bytes_at (heap s r))"
      using b hr2(4) written_bytes_append [OF an step(2) len] by simp
    then show ?thesis
      using unfold res o other2 by simp
  qed
qed

text \<open>C9. \<open>TryWrite\<close> is not atomic on failure. Let the write start at \<open>a\<close>, let the range
  found for its first page be valid and cover the addresses from \<open>a\<close> up to the page \<open>q\<close>,
  let every page from the first one up to \<open>q\<close> be writable and \<open>q\<close> not, and let the
  buffer reach beyond \<open>q\<close>. Then \<open>TryWrite\<close> returns \<open>false\<close>, the bytes of the buffer that
  fall below \<open>q\<close> are stored in the range, every byte from \<open>q\<close> on is as it was, and no
  other range object changes.\<close>

theorem TryWrite_partial_on_fault:
  assumes "a = addr AND addr_mask s"
    and "FindRangeAligned s (AlignDownToPage a) = (r, s1)" "r \<noteq> invalid s"
    and "is_valid (heap s r)" "base_address (heap s r) \<le> a" "q \<le> limit_address (heap s r)"
    and "page_aligned q" "a < q"
    and "\<forall>p. page_aligned p \<and> AlignDownToPage a \<le> p \<and> p < q \<longrightarrow> p \<in> page_is_writable s"
    and "q \<notin> page_is_writable s"
    and "unat q < unat a + length val" "unat a + length val < 2 ^ 64"
  shows "\<exists>s'. TryWrite vc s addr val = Some (False, s')
     \<and> bytes_at (heap s' r) = written_bytes a q val (bytes_at (heap s r))
     \<and> (\<forall>r'. r' \<noteq> r \<longrightarrow> heap s' r' = heap s r')"
proof -
  let ?p = "AlignDownToPage a"
  let ?e = "a + of_nat (length val)"
  have n: "unat (of_nat (length val) :: u64) = length val"
    using assms(12) by (simp add: unsigned_of_nat take_bit_nat_eq_self)
  then have "unat a + unat (of_nat (length val) :: u64) < 2 ^ LENGTH(64)"
    using assms(12) by simp
  then have "unat ?e = unat a + unat (of_nat (length val) :: u64)"
    by (simp only: unat_add_lem)
  then have e: "unat ?e = unat a + length val" using n by simp
  then have qe: "q < ?e" using assms(11) by (simp add: word_less_nat_alt)
  have pa: "?p \<le> a" by (rule AlignDown_le)
  have pq: "?p \<le> q" using pa assms(8) by (meson le_less_trans less_imp_le)
  have near: "unat a - unat ?p < 4096"
    by (simp add: unat_AlignDown flip: minus_mod_eq_div_mult)
  have i6: "?p < q \<longrightarrow> a < ?p + kPageSize"
  proof
    assume "?p < q"
    from aligned_step(1) [OF AlignDown_aligned assms(7) this] near pa
    show "a < ?p + kPageSize" by (simp add: word_less_nat_alt word_le_nat_alt)
  qed
  have i8: "?p < q \<longrightarrow> fst (FindRangeAligned s ?p) = r
       \<and> last_map_cache (snd (FindRangeAligned s ?p)) kRangeCacheSize = Some r"
    using assms(2) FindRangeAligned_caches [OF assms(2,3)] by simp
  show ?thesis
    using TryWrite_pages_fault [OF AlignDown_aligned assms(7) pq qe pa i6 e i8 assms(4,5,6,9,10), of vc]
    by (simp add: TryWrite_def Let_def assms(1))
qed

lemma aligned_between_0x1000_0x3000:
  assumes "page_aligned p" "0x1000 \<le> p" "p < 0x3000"
  shows "p = 0x1000 \<or> p = 0x2000"
proof -
  obtain k where k: "unat p = 4096 * k"
    using assms(1) unfolding page_aligned_def by (auto simp: mod_eq_0_iff_dvd)
  have "4096 \<le> unat p" using assms(2) by (simp add: word_le_nat_alt)
  moreover have "unat p < 12288" using assms(3) by (simp add: word_less_nat_alt)
  ultimately have "k = 1 \<or> k = 2" using k by auto
  then have "unat p = 4096 \<or> unat p = 8192" using k by auto
  then show ?thesis by (auto simp: word_unat_eq_iff)
qed

theorem TryWrite_partial_on_fault_witness:
  "page_aligned 0x3000
   \<and> 0x1000 \<in> page_is_writable mixed_page_space \<and> 0x2000 \<in> page_is_writable mixed_page_space
   \<and> 0x3000 \<notin> page_is_writable mixed_page_space
   \<and> (\<exists>s'. TryWrite False mixed_page_space 0x1FFE (replicate 4100 0xAA) = Some (False, s')
         \<and> bytes_at (heap s' 2)
            = written_bytes 0x1FFE 0x3000 (replicate 4100 0xAA) (bytes_at (heap mixed_page_space 2)))"
proof -
  have a: "0x1FFE = 0x1FFE AND addr_mask mixed_page_space"
    by (simp add: mixed_page_space_def)
  have f: "FindRangeAligned mixed_page_space (AlignDownToPage 0x1FFE)
      = (2, snd (FindRangeAligned mixed_page_space (AlignDownToPage 0x1FFE)))"
    by (simp add: mixed_page_space_def page_defs find_defs)
  have r: "2 \<noteq> invalid mixed_page_space" "is_valid (heap mixed_page_space 2)"
    "base_address (heap mixed_page_space 2) \<le> 0x1FFE"
    "0x3000 \<le> limit_address (heap mixed_page_space 2)"
    by (simp_all add: mixed_page_space_def range_defs)
  have q: "page_aligned 0x3000" "(0x1FFE :: u64) < 0x3000"
    by (simp_all add: page_aligned_def)
  have w: "\<forall>p. page_aligned p \<and> AlignDownToPage 0x1FFE \<le> p \<and> p < 0x3000
      \<longrightarrow> p \<in> page_is_writable mixed_page_space"
    using aligned_between_0x1000_0x3000 by (auto simp: mixed_page_space_def page_defs)
  have nw: "0x3000 \<notin> page_is_writable mixed_page_space"
    by (simp add: mixed_page_space_def)
  have m: "0x1000 \<in> page_is_writable mixed_page_space" "0x2000 \<in> page_is_writable mixed_page_space"
    by (simp_all add: mixed_page_space_def)
  have len: "unat (0x3000 :: u64) < unat (0x1FFE :: u64) + length (replicate 4100 (0xAA :: u8))"
    "unat (0x1FFE :: u64) + length (replicate 4100 (0xAA :: u8)) < 2 ^ 64"
    by simp_all
  from TryWrite_partial_on_fault [OF a f r q w nw len, of False]
  obtain s' where "TryWrite False mixed_page_space 0x1FFE (replicate 4100 0xAA) = Some (False, s')"
    "bytes_at (heap s' 2)
      = written_bytes 0x1FFE 0x3000 (replicate 4100 0xAA) (bytes_at (heap mixed_page_space 2))"
    by blast
  then show ?thesis
    using q(1) m nw by blast
qed

section \<open>Holes in the address space (C2)\<close>

lemma FindHole_step_Found:
  assumes "FindHole_step mn mx sz high_base low_limit = Found hole" "mn \<le> mx"
  shows "max mn low_limit \<le> hole" "unat hole + unat sz = unat (min mx high_base)"
    "low_limit \<le> high_base" "low_limit < mx" "mn \<le> high_base"
proof -
  let ?amax = "min mx high_base" and ?amin = "max mn low_limit"
  from assms(1) have c: "\<not> high_base < mn" "low_limit \<le> high_base" "\<not> low_limit \<ge> mx"
    "\<not> ?amax - ?amin < sz" "hole = ?amax - sz" "hole \<ge> ?amin"
    by (auto simp: FindHole_step_def Let_def split: if_splits)
  show "low_limit \<le> high_base" by (rule c(2))
  show lm: "low_limit < mx" using c(3) by simp
  show mh: "mn \<le> high_base" using c(1) by simp
  have le: "?amin \<le> ?amax" using assms(2) c(2) lm mh by (simp add: less_imp_le)
  then have "unat (?amax - ?amin) = unat ?amax - unat ?amin" by (rule unat_sub)
  moreover have "unat sz \<le> unat (?amax - ?amin)" using c(4) by (simp add: word_less_nat_alt)
  ultimately have "unat sz \<le> unat ?amax" by simp
  then have "sz \<le> ?amax" by (simp add: word_le_nat_alt)
  then have "unat (?amax - sz) = unat ?amax - unat sz" by (rule unat_sub)
  then show "unat hole + unat sz = unat ?amax"
    using c(5) \<open>unat sz \<le> unat ?amax\<close> by simp
  show "?amin \<le> hole" by (rule c(6))
qed

lemma FindHole_loop_sound:
  assumes "ranges_disjoint_sorted h (rev ys @ post)" "mn \<le> mx"
    "FindHole_loop h mn mx sz ys = Inr (Some hole)"
  shows "\<exists>lo hi. gap_free h (rev ys @ post) lo hi \<and> is_bound h (rev ys @ post) lo
      \<and> is_bound h (rev ys @ post) hi \<and> max mn lo \<le> hole
      \<and> unat hole + unat sz = unat (min mx hi) \<and> lo < mx"
  using assms
proof (induction ys arbitrary: post)
  case Nil
  then show ?case by simp
next
  case (Cons rh rest)
  let ?all = "rev (rh # rest) @ post"
  have wf: "list_all (\<lambda>p. base_address (h p) \<le> limit_address (h p)) ?all"
    "sorted_wrt (\<lambda>p p'. limit_address (h p) \<le> base_address (h p')) (rev rest @ [rh] @ post)"
    using Cons.prems(1) by (simp_all add: ranges_disjoint_sorted_def)
  have below: "\<forall>p\<in>set rest. limit_address (h p) \<le> base_address (h rh)"
    using wf(2) by (auto simp: sorted_wrt_append)
  have above: "\<forall>p\<in>set post. limit_address (h rh) \<le> base_address (h p)"
    using wf(2) by (auto simp: sorted_wrt_append)
  have rh_ok: "base_address (h rh) \<le> limit_address (h rh)"
    using wf(1) by (simp add: list_all_iff)
  have next_wf: "ranges_disjoint_sorted h (rev rest @ (rh # post))"
    using Cons.prems(1) by simp
  have same: "rev rest @ (rh # post) = ?all" by simp
  show ?case
  proof (cases "is_valid (h rh)")
    case False
    show ?thesis
    proof (cases "FindHole_step mn mx sz (limit_address (h rh)) (base_address (h rh))")
      case Break
      then show ?thesis using Cons.prems(3) False by simp
    next
      case Continue
      then have "FindHole_loop h mn mx sz rest = Inr (Some hole)"
        using Cons.prems(3) False by simp
      from Cons.IH [OF next_wf Cons.prems(2) this] show ?thesis
        by (simp only: same)
    next
      case Failed
      then show ?thesis using Cons.prems(3) False by simp
    next
      case (Found hole')
      then have hh: "hole' = hole" using Cons.prems(3) False by simp
      note f = FindHole_step_Found [OF Found [unfolded hh] Cons.prems(2)]
      have "gap_free h ?all (base_address (h rh)) (limit_address (h rh))"
        using below above False by (auto simp: gap_free_def list_all_iff)
      moreover have "is_bound h ?all (base_address (h rh))" "is_bound h ?all (limit_address (h rh))"
        by (auto simp: is_bound_def list_ex_iff)
      ultimately show ?thesis using f by blast
    qed
  next
    case True
    show ?thesis
    proof (cases rest)
      case Nil
      then show ?thesis using Cons.prems(3) True by simp
    next
      case (Cons rl rest')
      have rl_ok: "base_address (h rl) \<le> limit_address (h rl)"
        using wf(1) Cons by (simp add: list_all_iff)
      have below_rl: "\<forall>p\<in>set rest'. limit_address (h p) \<le> limit_address (h rl)"
      proof
        fix p assume "p \<in> set rest'"
        then have "limit_address (h p) \<le> base_address (h rl)"
          using wf(2) Cons by (auto simp: sorted_wrt_append)
        then show "limit_address (h p) \<le> limit_address (h rl)"
          using rl_ok by (rule order_trans)
      qed
      have above_rh: "\<forall>p\<in>set post. base_address (h rh) \<le> base_address (h p)"
        using above rh_ok by (meson order_trans)
      show ?thesis
      proof (cases "FindHole_step mn mx sz (base_address (h rh)) (limit_address (h rl))")
        case Break
        then show ?thesis using Cons.prems(3) True Cons by simp
      next
        case Continue
        then have "FindHole_loop h mn mx sz rest = Inr (Some hole)"
          using Cons.prems(3) True Cons by simp
        from Cons.IH [OF next_wf Cons.prems(2) this] show ?thesis
          by (simp only: same)
      next
        case Failed
        then show ?thesis using Cons.prems(3) True Cons by simp
      next
        case (Found hole')
        then have hh: "hole' = hole" using Cons.prems(3) True Cons by simp
        note f = FindHole_step_Found [OF Found [unfolded hh] Cons.prems(2)]
        have "gap_free h ?all (limit_address (h rl)) (base_address (h rh))"
          using below_rl above_rh Cons by (auto simp: gap_free_def list_all_iff)
        moreover have "is_bound h ?all (limit_address (h rl))" "is_bound h ?all (base_address (h rh))"
          using Cons by (auto simp: is_bound_def list_ex_iff)
        ultimately show ?thesis using f by blast
      qed
    qed
  qed
qed

lemma FindHole_sound:
  assumes wf: "ranges_disjoint_sorted (heap s) (maps s)"
    and al: "bounds_aligned (heap s) (addr_mask s) (maps s)"
    and top: "AlignDownToPage mx \<le> addr_mask s"
    and idx: "index_sound s"
    and res: "FindHole s mn mx sz = Inr (Some h)"
  shows "page_aligned h \<and> AlignDownToPage mn \<le> h
     \<and> unat h + unat (RoundUpToPage sz) \<le> unat (AlignDownToPage mx)
     \<and> (\<forall>a. h \<le> a \<and> unat a < unat h + unat (RoundUpToPage sz)
            \<longrightarrow> \<not> IsMapped s a \<and> \<not> in_valid_range s a)"
proof -
  let ?mn = "AlignDownToPage mn" and ?mx = "AlignDownToPage mx" and ?sz = "RoundUpToPage sz"
  from res have lt: "?mn < ?mx"
    and loop: "FindHole_loop (heap s) ?mn ?mx ?sz (rev (maps s)) = Inr (Some h)"
    by (auto simp: FindHole_def split: if_splits)
  have wf': "ranges_disjoint_sorted (heap s) (rev (rev (maps s)) @ [])" using wf by simp
  from FindHole_loop_sound [OF wf' less_imp_le [OF lt] loop]
  obtain lo hi where free: "gap_free (heap s) (maps s) lo hi"
    and blo: "is_bound (heap s) (maps s) lo" and bhi: "is_bound (heap s) (maps s) hi"
    and lo_h: "max ?mn lo \<le> h" and sum: "unat h + unat ?sz = unat (min ?mx hi)"
    and lo_mx: "lo < ?mx"
    by auto
  have lo_al: "page_aligned lo"
  proof -
    obtain p where p: "p \<in> set (maps s)"
      "lo = base_address (heap s p) \<or> lo = limit_address (heap s p)"
      using blo by (auto simp: is_bound_def list_ex_iff)
    have "lo \<noteq> addr_mask s" using lo_mx top by auto
    then show ?thesis using al p by (auto simp: bounds_aligned_def list_all_iff)
  qed
  have hi_al: "page_aligned (min ?mx hi)"
  proof -
    obtain p where p: "p \<in> set (maps s)"
      "hi = base_address (heap s p) \<or> hi = limit_address (heap s p)"
      using bhi by (auto simp: is_bound_def list_ex_iff)
    then have "page_aligned hi \<or> hi = addr_mask s"
      using al by (auto simp: bounds_aligned_def list_all_iff)
    then show ?thesis
    proof
      assume "page_aligned hi"
      then show ?thesis using AlignDown_aligned [of mx] by (simp add: min_def)
    next
      assume "hi = addr_mask s"
      then have "min ?mx hi = ?mx" using top by (simp add: min_absorb1)
      then show ?thesis by (simp add: AlignDown_aligned)
    qed
  qed
  have h_al: "page_aligned h"
    using aligned_diff [OF hi_al RoundUp_aligned sum] .
  have mn_h: "?mn \<le> h" using lo_h by simp
  have lo_le: "lo \<le> h" using lo_h by simp
  have "unat (min ?mx hi) \<le> unat ?mx" by (simp add: word_le_nat_alt [symmetric])
  then have bound: "unat h + unat ?sz \<le> unat ?mx" using sum by simp
  have hi_le: "unat (min ?mx hi) \<le> unat hi" by (simp add: word_le_nat_alt [symmetric])
  have free_at: "\<not> IsMapped s a \<and> \<not> in_valid_range s a"
    if a: "h \<le> a" "unat a < unat h + unat ?sz" for a
  proof -
    have a_hi: "a < hi" using a(2) sum hi_le by (simp add: word_less_nat_alt)
    have lo_a: "lo \<le> a" using lo_le a(1) by (rule order_trans)
    have no: "\<not> (base_address (heap s p) \<le> x \<and> x < limit_address (heap s p))"
      if "p \<in> set (maps s)" "is_valid (heap s p)" "lo \<le> x" "x < hi" for p x
    proof -
      have "limit_address (heap s p) \<le> lo \<or> hi \<le> base_address (heap s p)"
        using free that(1,2) by (auto simp: gap_free_def list_all_iff)
      then show ?thesis
      proof
        assume "limit_address (heap s p) \<le> lo"
        then have "limit_address (heap s p) \<le> x" using that(3) by (rule order_trans)
        then show ?thesis by auto
      next
        assume "hi \<le> base_address (heap s p)"
        then have "x < base_address (heap s p)" using that(4) by (meson less_le_trans)
        then show ?thesis by auto
      qed
    qed
    have "\<not> in_valid_range s a"
      using no [of _ a] lo_a a_hi by (auto simp: in_valid_range_def list_ex_iff Contains_def)
    moreover have "\<not> IsMapped s a"
    proof
      assume "IsMapped s a"
      then obtain p where "page_to_map s (AlignDownToPage a) = Some p"
        by (auto simp: IsMapped_def split: if_splits option.splits)
      then have p: "p \<in> set (maps s)" "is_valid (heap s p)"
        "Contains (heap s p) (AlignDownToPage a)"
        using idx by (auto simp: index_sound_def)
      have "lo \<le> AlignDownToPage a" using lo_al lo_a by (rule aligned_le_AlignDown)
      moreover have "AlignDownToPage a < hi"
        using AlignDown_le [of a] a_hi by (meson le_less_trans)
      ultimately show False using no [OF p(1,2), of "AlignDownToPage a"] p(3)
        by (auto simp: Contains_def)
    qed
    ultimately show ?thesis by simp
  qed
  show ?thesis using h_al mn_h bound free_at by blast
qed

lemma FindHole_gaps_below:
  "\<forall>p \<in> set ys. base_address (h p) \<le> limit_address (h p) \<and> limit_address (h p) \<le> b \<Longrightarrow>
   \<forall>g \<in> set (FindHole_gaps h ys). snd g \<le> b"
proof (induction ys)
  case Nil
  then show ?case by simp
next
  case (Cons y ys)
  then have "\<forall>g \<in> set (FindHole_gaps h ys). snd g \<le> b" by simp
  moreover have "base_address (h y) \<le> b" using Cons.prems by (meson list.set_intros(1) order_trans)
  ultimately show ?case using Cons.prems by (auto split: list.splits)
qed

lemma fits_below:
  assumes "fits_in_gap mn mx sz g c" "snd g \<le> lo" "lo \<le> hole"
  shows "c \<le> hole"
proof -
  have "unat c \<le> unat (min mx (snd g))" using assms(1) by (simp add: fits_in_gap_def)
  also have "\<dots> \<le> unat (snd g)" by (simp add: word_le_nat_alt [symmetric])
  also have "\<dots> \<le> unat hole" using assms(2,3) by (simp add: word_le_nat_alt)
  finally show ?thesis by (simp add: word_le_nat_alt)
qed

lemma Continue_no_fit:
  assumes "FindHole_step mn mx sz hi lo = Continue"
  shows "\<not> fits_in_gap mn mx sz (lo, hi) c"
proof
  assume f: "fits_in_gap mn mx sz (lo, hi) c"
  let ?amax = "min mx hi" and ?amin = "max mn lo"
  have c: "?amin \<le> c" "c < mx" "unat c + unat sz \<le> unat ?amax"
    using f by (simp_all add: fits_in_gap_def)
  have "lo \<le> c" using c(1) by simp
  then have "lo < mx" using c(2) by (meson le_less_trans)
  then have small: "?amax - ?amin < sz"
    using assms by (auto simp: FindHole_step_def Let_def split: if_splits)
  have "unat ?amin \<le> unat c" using c(1) by (simp add: word_le_nat_alt)
  then have le: "unat ?amin + unat sz \<le> unat ?amax" using c(3) by simp
  then have "?amin \<le> ?amax" by (simp add: word_le_nat_alt)
  then have "unat (?amax - ?amin) = unat ?amax - unat ?amin" by (rule unat_sub)
  moreover have "unat sz \<le> unat ?amax - unat ?amin" using le by linarith
  ultimately have "unat sz \<le> unat (?amax - ?amin)" by (simp only:)
  then show False using small by (simp add: word_less_nat_alt)
qed

lemma Found_highest:
  assumes "FindHole_step mn mx sz hi lo = Found hole" "mn \<le> mx" "fits_in_gap mn mx sz (lo, hi) c"
  shows "c \<le> hole"
proof -
  have "unat hole + unat sz = unat (min mx hi)"
    using FindHole_step_Found(2) [OF assms(1,2)] .
  moreover have "unat c + unat sz \<le> unat (min mx hi)" using assms(3) by (simp add: fits_in_gap_def)
  ultimately show ?thesis by (simp add: word_le_nat_alt)
qed

lemma FindHole_loop_highest:
  assumes "ranges_disjoint_sorted h (rev ys @ post)" "mn \<le> mx"
    "FindHole_loop h mn mx sz ys = Inr (Some hole)"
    "g \<in> set (FindHole_gaps h ys)" "fits_in_gap mn mx sz g c"
  shows "c \<le> hole"
  using assms
proof (induction ys arbitrary: post)
  case Nil
  then show ?case by simp
next
  case (Cons rh rest)
  have wf: "list_all (\<lambda>p. base_address (h p) \<le> limit_address (h p)) (rev (rh # rest) @ post)"
    "sorted_wrt (\<lambda>p p'. limit_address (h p) \<le> base_address (h p')) (rev rest @ [rh] @ post)"
    using Cons.prems(1) by (simp_all add: ranges_disjoint_sorted_def)
  have ok: "\<forall>p \<in> set rest. base_address (h p) \<le> limit_address (h p)"
    using wf(1) by (simp add: list_all_iff)
  have below: "\<forall>p \<in> set rest. limit_address (h p) \<le> base_address (h rh)"
    using wf(2) by (auto simp: sorted_wrt_append)
  have next_wf: "ranges_disjoint_sorted h (rev rest @ (rh # post))"
    using Cons.prems(1) by simp
  show ?case
  proof (cases "is_valid (h rh)")
    case False
    let ?lo = "base_address (h rh)" and ?hi = "limit_address (h rh)"
    have g: "g = (?lo, ?hi) \<or> g \<in> set (FindHole_gaps h rest)"
      using Cons.prems(4) False by simp
    show ?thesis
    proof (cases "FindHole_step mn mx sz ?hi ?lo")
      case Break
      then show ?thesis using Cons.prems(3) False by simp
    next
      case Continue
      then have run: "FindHole_loop h mn mx sz rest = Inr (Some hole)"
        using Cons.prems(3) False by simp
      have "g \<noteq> (?lo, ?hi)" using Continue_no_fit [OF Continue] Cons.prems(5) by auto
      then have "g \<in> set (FindHole_gaps h rest)" using g by simp
      from Cons.IH [OF next_wf Cons.prems(2) run this Cons.prems(5)] show ?thesis .
    next
      case Failed
      then show ?thesis using Cons.prems(3) False by simp
    next
      case (Found hole')
      then have hh: "hole' = hole" using Cons.prems(3) False by simp
      note f = FindHole_step_Found [OF Found [unfolded hh] Cons.prems(2)]
      from g show ?thesis
      proof
        assume "g = (?lo, ?hi)"
        then show ?thesis using Found_highest [OF Found [unfolded hh] Cons.prems(2)] Cons.prems(5)
          by simp
      next
        assume "g \<in> set (FindHole_gaps h rest)"
        then have "snd g \<le> ?lo" using FindHole_gaps_below [of rest h ?lo] ok below by blast
        moreover have "?lo \<le> hole" using f(1) by simp
        ultimately show ?thesis using Cons.prems(5) fits_below by blast
      qed
    qed
  next
    case True
    show ?thesis
    proof (cases rest)
      case Nil
      then show ?thesis using Cons.prems(3) True by simp
    next
      case (Cons rl rest')
      let ?lo = "limit_address (h rl)" and ?hi = "base_address (h rh)"
      have g: "g = (?lo, ?hi) \<or> g \<in> set (FindHole_gaps h rest)"
        using Cons.prems(4) True Cons by simp
      have rl_ok: "base_address (h rl) \<le> ?lo" using ok Cons by simp
      have "\<forall>p \<in> set rest. base_address (h p) \<le> limit_address (h p) \<and> limit_address (h p) \<le> ?lo"
      proof
        fix p assume p: "p \<in> set rest"
        have "limit_address (h p) \<le> ?lo"
        proof (cases "p = rl")
          case True
          then show ?thesis by simp
        next
          case False
          then have "p \<in> set rest'" using p Cons by simp
          then have "limit_address (h p) \<le> base_address (h rl)"
            using wf(2) Cons by (auto simp: sorted_wrt_append)
          then show ?thesis using rl_ok by (rule order_trans)
        qed
        then show "base_address (h p) \<le> limit_address (h p) \<and> limit_address (h p) \<le> ?lo"
          using ok p by simp
      qed
      then have rest_below: "\<forall>g \<in> set (FindHole_gaps h rest). snd g \<le> ?lo"
        by (rule FindHole_gaps_below)
      show ?thesis
      proof (cases "FindHole_step mn mx sz ?hi ?lo")
        case Break
        then show ?thesis using Cons.prems(3) True Cons by simp
      next
        case Continue
        then have run: "FindHole_loop h mn mx sz rest = Inr (Some hole)"
          using Cons.prems(3) True Cons by simp
        have "g \<noteq> (?lo, ?hi)" using Continue_no_fit [OF Continue] Cons.prems(5) by auto
        then have "g \<in> set (FindHole_gaps h rest)" using g by simp
        from Cons.IH [OF next_wf Cons.prems(2) run this Cons.prems(5)] show ?thesis .
      next
        case Failed
        then show ?thesis using Cons.prems(3) True Cons by simp
      next
        case (Found hole')
        then have hh: "hole' = hole" using Cons.prems(3) True Cons by simp
        note f = FindHole_step_Found [OF Found [unfolded hh] Cons.prems(2)]
        from g show ?thesis
        proof
          assume "g = (?lo, ?hi)"
          then show ?thesis
            using Found_highest [OF Found [unfolded hh] Cons.prems(2)] Cons.prems(5) by simp
        next
          assume "g \<in> set (FindHole_gaps h rest)"
          then have "snd g \<le> ?lo" using rest_below by blast
          moreover have "?lo \<le> hole" using f(1) by simp
          ultimately show ?thesis using Cons.prems(5) fits_below by blast
        qed
      qed
    qed
  qed
qed

lemma FindHole_loop_in_gap:
  assumes "FindHole_loop h mn mx sz ys = Inr (Some hole)" "mn \<le> mx"
  shows "\<exists>g \<in> set (FindHole_gaps h ys).
           max mn (fst g) \<le> hole \<and> unat hole + unat sz = unat (min mx (snd g))"
  using assms
proof (induction ys)
  case Nil
  then show ?case by simp
next
  case (Cons rh rest)
  show ?case
  proof (cases "is_valid (h rh)")
    case False
    let ?lo = "base_address (h rh)" and ?hi = "limit_address (h rh)"
    show ?thesis
    proof (cases "FindHole_step mn mx sz ?hi ?lo")
      case Break
      then show ?thesis using Cons.prems(1) False by simp
    next
      case Continue
      then have "FindHole_loop h mn mx sz rest = Inr (Some hole)"
        using Cons.prems(1) False by simp
      from Cons.IH [OF this Cons.prems(2)] show ?thesis by auto
    next
      case Failed
      then show ?thesis using Cons.prems(1) False by simp
    next
      case (Found hole')
      then have hh: "hole' = hole" using Cons.prems(1) False by simp
      note f = FindHole_step_Found [OF Found [unfolded hh] Cons.prems(2)]
      show ?thesis using f(1,2) False by simp
    qed
  next
    case True
    show ?thesis
    proof (cases rest)
      case Nil
      then show ?thesis using Cons.prems(1) True by simp
    next
      case (Cons rl rest')
      let ?lo = "limit_address (h rl)" and ?hi = "base_address (h rh)"
      show ?thesis
      proof (cases "FindHole_step mn mx sz ?hi ?lo")
        case Break
        then show ?thesis using Cons.prems(1) True Cons by simp
      next
        case Continue
        then have "FindHole_loop h mn mx sz rest = Inr (Some hole)"
          using Cons.prems(1) True Cons by simp
        from Cons.IH [OF this Cons.prems(2)] show ?thesis by auto
      next
        case Failed
        then show ?thesis using Cons.prems(1) True Cons by simp
      next
        case (Found hole')
        then have hh: "hole' = hole" using Cons.prems(1) True Cons by simp
        note f = FindHole_step_Found [OF Found [unfolded hh] Cons.prems(2)]
        show ?thesis using f(1,2) True Cons by simp
      qed
    qed
  qed
qed

lemma FindHole_highest:
  assumes wf: "ranges_disjoint_sorted (heap s) (maps s)"
    and res: "FindHole s mn mx sz = Inr (Some h)"
  shows "\<exists>g \<in> set (FindHole_gaps (heap s) (rev (maps s))).
           max (AlignDownToPage mn) (fst g) \<le> h
           \<and> unat h + unat (RoundUpToPage sz) = unat (min (AlignDownToPage mx) (snd g))"
    and "g \<in> set (FindHole_gaps (heap s) (rev (maps s))) \<Longrightarrow>
         fits_in_gap (AlignDownToPage mn) (AlignDownToPage mx) (RoundUpToPage sz) g c \<Longrightarrow> c \<le> h"
proof -
  let ?mn = "AlignDownToPage mn" and ?mx = "AlignDownToPage mx" and ?sz = "RoundUpToPage sz"
  from res have lt: "?mn < ?mx"
    and loop: "FindHole_loop (heap s) ?mn ?mx ?sz (rev (maps s)) = Inr (Some h)"
    by (auto simp: FindHole_def split: if_splits)
  have le: "?mn \<le> ?mx" using lt by simp
  show "\<exists>g \<in> set (FindHole_gaps (heap s) (rev (maps s))).
           max ?mn (fst g) \<le> h \<and> unat h + unat ?sz = unat (min ?mx (snd g))"
    using loop le by (rule FindHole_loop_in_gap)
  have wf': "ranges_disjoint_sorted (heap s) (rev (rev (maps s)) @ [])" using wf by simp
  show "c \<le> h" if "g \<in> set (FindHole_gaps (heap s) (rev (maps s)))"
    "fits_in_gap ?mn ?mx ?sz g c"
    using wf' le loop that by (rule FindHole_loop_highest)
qed

lemmas hole_defs = FindHole_def FindHole_step_def

lemma two_range_space_built: "AddMap rw_page_space 0x5000 0x1000 = Some (Inr two_range_space)"
  by (simp add: rw_page_space_def two_range_space_def eval_defs)

lemma punched_space_built: "RemoveMap empty_space64 0x3000 0x1000 = Some (Inr punched_space)"
  by (simp add: empty_space64_def punched_space_def eval_defs)

lemma FindHole_two_ranges: "FindHole two_range_space 0 0x10000 0x2000 = Inr (Some 0xE000)"
  by (simp add: two_range_space_def hole_defs page_defs range_defs)

section \<open>Mapped addresses in reachable states (C8)\<close>

lemma index_frame_refl: "index_frame s s"
  by (simp add: index_frame_def)

lemma index_frame_trans: "index_frame s t \<Longrightarrow> index_frame t u \<Longrightarrow> index_frame s u"
  by (simp add: index_frame_def)

lemma index_frame_perm: "index_frame s y \<Longrightarrow> page_has_permission y = page_has_permission s"
  by (simp add: index_frame_def page_has_permission_def fun_eq_iff CanReadAligned_def
      CanWriteAligned_def CanExecuteAligned_def)

lemma index_page_frame: "index_frame s (index_page m addr s)"
  by (simp add: index_frame_def index_page_def Let_def)

lemma index_page_map:
  "page_to_map (index_page m addr s) =
     (if page_has_permission s addr then (page_to_map s)(addr := Some m) else page_to_map s)"
  by (simp add: index_page_def Let_def page_has_permission_def)

lemma page_step:
  assumes "page_aligned addr" "addr < limit" "unat limit + 4096 \<le> 2 ^ 64"
  shows "page_aligned (addr + kPageSize)"
    and "page_aligned page \<Longrightarrow> addr \<le> page \<longleftrightarrow> page = addr \<or> addr + kPageSize \<le> page"
proof -
  show al: "page_aligned (addr + kPageSize)" using assms(1) by (rule aligned_next)
  have "unat addr < unat limit" using assms(2) by (simp add: word_less_nat_alt)
  then have "unat addr + unat (4096 :: u64) < 2 ^ LENGTH(64)" using assms(3) by simp
  then have "unat (addr + 4096) = unat addr + unat (4096 :: u64)" by (simp only: unat_add_lem)
  then have u: "unat (addr + kPageSize) = unat addr + 4096" by (simp add: kPageSize_def)
  assume pg: "page_aligned page"
  obtain k where k: "unat addr = 4096 * k"
    using assms(1) unfolding page_aligned_def by (auto simp: mod_eq_0_iff_dvd)
  obtain k' where k': "unat page = 4096 * k'"
    using pg unfolding page_aligned_def by (auto simp: mod_eq_0_iff_dvd)
  have "4096 * k + 4096 = 4096 * (k + 1)" by simp
  then have "4096 * k + 4096 \<le> 4096 * k' \<longleftrightarrow> k + 1 \<le> k'"
    by (simp only: mult_le_cancel1) simp
  then have "unat addr \<le> unat page \<longleftrightarrow> unat page = unat addr \<or> unat addr + 4096 \<le> unat page"
    unfolding k k' by auto
  then show "addr \<le> page \<longleftrightarrow> page = addr \<or> addr + kPageSize \<le> page"
    using u by (simp add: word_le_nat_alt word_unat_eq_iff)
qed

lemma index_pages_result:
  assumes "index_pages m addr limit s = Some y"
  shows "page_aligned addr \<longrightarrow> unat limit + 4096 \<le> 2 ^ 64 \<longrightarrow>
         index_frame s y \<and>
         page_to_map y =
           (\<lambda>page. if page_aligned page \<and> addr \<le> page \<and> page < limit \<and> page_has_permission s page
                    then Some m else page_to_map s page)"
proof (rule index_pages.raw_induct
    [where P = "\<lambda>m addr limit s y. page_aligned addr \<longrightarrow> unat limit + 4096 \<le> 2 ^ 64 \<longrightarrow>
         index_frame s y \<and>
         page_to_map y =
           (\<lambda>page. if page_aligned page \<and> addr \<le> page \<and> page < limit \<and> page_has_permission s page
                    then Some m else page_to_map s page)",
     OF _ assms], goal_cases)
  case (1 f m addr limit s y)
  show ?case
  proof (intro impI)
    assume al: "page_aligned addr" and nw: "unat limit + 4096 \<le> 2 ^ 64"
    show "index_frame s y \<and>
         page_to_map y =
           (\<lambda>page. if page_aligned page \<and> addr \<le> page \<and> page < limit \<and> page_has_permission s page
                    then Some m else page_to_map s page)"
    proof (cases "addr < limit")
      case False
      then have "y = s" using 1(2) by simp
      moreover have "\<And>page. \<not> (addr \<le> page \<and> page < limit)" using False by auto
      ultimately show ?thesis by (auto simp: index_frame_refl fun_eq_iff)
    next
      case True
      let ?s1 = "index_page m addr s"
      have rec: "f m (addr + kPageSize) limit ?s1 = Some y" using 1(2) True by simp
      have al': "page_aligned (addr + kPageSize)" using al True nw by (rule page_step(1))
      have ih: "index_frame ?s1 y"
        "page_to_map y =
           (\<lambda>page. if page_aligned page \<and> addr + kPageSize \<le> page \<and> page < limit
                       \<and> page_has_permission ?s1 page
                    then Some m else page_to_map ?s1 page)"
        using 1(1) [OF rec] al' nw by simp_all
      have fr: "index_frame s ?s1" by (rule index_page_frame)
      have perm: "page_has_permission ?s1 = page_has_permission s"
        using fr by (rule index_frame_perm)
      have "page_to_map y page =
           (if page_aligned page \<and> addr \<le> page \<and> page < limit \<and> page_has_permission s page
            then Some m else page_to_map s page)" for page
        using ih(2) perm page_step(2) [OF al True nw, of page] True al
        by (auto simp: index_page_map)
      then show ?thesis using ih(1) fr index_frame_trans by blast
    qed
  qed
qed

lemma index_maps_result:
  "index_maps ms s = Some y \<Longrightarrow>
   \<forall>p \<in> set ms. is_valid (heap s p) \<longrightarrow>
      page_aligned (base_address (heap s p)) \<and> unat (limit_address (heap s p)) + 4096 \<le> 2 ^ 64 \<Longrightarrow>
   index_frame s y
   \<and> (\<forall>page p. page_to_map y page = Some p \<longrightarrow>
         page_to_map s page = Some p
         \<or> (p \<in> set ms \<and> is_valid (heap s p) \<and> Contains (heap s p) page
             \<and> page_aligned page \<and> page_has_permission s page))
   \<and> (\<forall>page. page_to_map y page = None \<longrightarrow>
         page_to_map s page = None
         \<and> \<not> (page_aligned page \<and> page_has_permission s page
              \<and> (\<exists>p \<in> set ms. is_valid (heap s p) \<and> Contains (heap s p) page)))"
proof (induction ms arbitrary: s)
  case Nil
  then show ?case by (simp add: index_frame_refl)
next
  case (Cons m ms)
  show ?case
  proof (cases "is_valid (heap s m)")
    case False
    then have run: "index_maps ms s = Some y" using Cons.prems(1) by simp
    have "\<forall>p \<in> set ms. is_valid (heap s p) \<longrightarrow>
        page_aligned (base_address (heap s p)) \<and> unat (limit_address (heap s p)) + 4096 \<le> 2 ^ 64"
      using Cons.prems(2) by simp
    from Cons.IH [OF run this] False
    show ?thesis by (simp del: One_nat_def) blast
  next
    case True
    let ?s0 = "s\<lparr>min_addr := min (min_addr s) (base_address (heap s m))\<rparr>"
    let ?b = "base_address (heap s m)" and ?l = "limit_address (heap s m)"
    obtain s1 where s1: "index_pages m ?b ?l ?s0 = Some s1" and rest: "index_maps ms s1 = Some y"
      using Cons.prems(1) True by (auto simp: bind_eq_Some_conv)
    have wf: "page_aligned ?b" "unat ?l + 4096 \<le> 2 ^ 64" using Cons.prems(2) True by auto
    have f0: "index_frame s ?s0" by (simp add: index_frame_def)
    have r1: "index_frame ?s0 s1"
      "page_to_map s1 =
         (\<lambda>page. if page_aligned page \<and> ?b \<le> page \<and> page < ?l \<and> page_has_permission ?s0 page
                  then Some m else page_to_map ?s0 page)"
      using index_pages_result [OF s1] wf by simp_all
    have f1: "index_frame s s1" using f0 r1(1) by (rule index_frame_trans)
    have h1: "heap s1 = heap s" using f1 by (simp add: index_frame_def)
    have p1: "page_has_permission s1 = page_has_permission s" using f1 by (rule index_frame_perm)
    have p0: "page_has_permission ?s0 = page_has_permission s" using f0 by (rule index_frame_perm)
    have pm1: "page_to_map s1 page =
         (if page_aligned page \<and> Contains (heap s m) page \<and> page_has_permission s page
          then Some m else page_to_map s page)" for page
      using r1(2) p0 by (simp add: Contains_def)
    have "\<forall>p \<in> set ms. is_valid (heap s1 p) \<longrightarrow>
        page_aligned (base_address (heap s1 p)) \<and> unat (limit_address (heap s1 p)) + 4096 \<le> 2 ^ 64"
      using Cons.prems(2) h1 by simp
    from Cons.IH [OF rest this]
    have ih1: "index_frame s1 y"
      and ih2: "\<And>page p. page_to_map y page = Some p \<Longrightarrow>
         page_to_map s1 page = Some p
         \<or> (p \<in> set ms \<and> is_valid (heap s p) \<and> Contains (heap s p) page
             \<and> page_aligned page \<and> page_has_permission s page)"
      and ih3: "\<And>page. page_to_map y page = None \<Longrightarrow>
         page_to_map s1 page = None
         \<and> \<not> (page_aligned page \<and> page_has_permission s page
              \<and> (\<exists>p \<in> set ms. is_valid (heap s p) \<and> Contains (heap s p) page))"
      unfolding h1 p1 by blast+
    have c2: "page_to_map s page = Some p
         \<or> (p \<in> set (m # ms) \<and> is_valid (heap s p) \<and> Contains (heap s p) page
             \<and> page_aligned page \<and> page_has_permission s page)"
      if "page_to_map y page = Some p" for page p
      using ih2 [OF that] pm1 [of page] True by (auto split: if_splits)
    have c3: "page_to_map s page = None
         \<and> \<not> (page_aligned page \<and> page_has_permission s page
              \<and> (\<exists>p \<in> set (m # ms). is_valid (heap s p) \<and> Contains (heap s p) page))"
      if "page_to_map y page = None" for page
      using ih3 [OF that] pm1 [of page] True by (auto split: if_splits)
    have "index_frame s y" using f1 ih1 by (rule index_frame_trans)
    then show ?thesis using c2 c3 by blast
  qed
qed

lemma CreatePageToRangeMap_result:
  assumes "CreatePageToRangeMap s = Some y"
    and "\<forall>p \<in> set (maps s). range_wf (addr_mask s) (heap s p)"
  shows "set (maps y) = set (maps s)" "heap y = heap s"
    "page_is_readable y = page_is_readable s" "page_is_writable y = page_is_writable s"
    "page_is_executable y = page_is_executable s" "is_dead y = is_dead s"
    "addr_mask y = addr_mask s" "next_ptr y = next_ptr s" "index_exact y"
proof -
  let ?s3 = "s\<lparr>page_to_map := (\<lambda>_. None), wnx_page_to_map := (\<lambda>_. None),
                 last_map_cache := (\<lambda>_. None), wnx_last_map_cache := (\<lambda>_. None),
                 maps := sort_key (\<lambda>p. base_address (heap s p)) (maps s),
                 min_addr := 0xFFFFFFFFFFFFFFFF\<rparr>"
  have run: "index_maps (maps ?s3) ?s3 = Some y"
    using assms(1) by (simp add: CreatePageToRangeMap_def Let_def)
  have "\<forall>p \<in> set (maps ?s3). is_valid (heap ?s3 p) \<longrightarrow>
      page_aligned (base_address (heap ?s3 p)) \<and> unat (limit_address (heap ?s3 p)) + 4096 \<le> 2 ^ 64"
    using assms(2) by (simp add: range_wf_def)
  from index_maps_result [OF run this]
  have fr: "index_frame ?s3 y"
    and ix2: "\<And>page p. page_to_map y page = Some p \<Longrightarrow>
         page_to_map ?s3 page = Some p
         \<or> (p \<in> set (maps ?s3) \<and> is_valid (heap ?s3 p) \<and> Contains (heap ?s3 p) page
             \<and> page_aligned page \<and> page_has_permission ?s3 page)"
    and ix3: "\<And>page. page_to_map y page = None \<Longrightarrow>
         page_to_map ?s3 page = None
         \<and> \<not> (page_aligned page \<and> page_has_permission ?s3 page
              \<and> (\<exists>p \<in> set (maps ?s3). is_valid (heap ?s3 p) \<and> Contains (heap ?s3 p) page))"
    by blast+
  show "set (maps y) = set (maps s)" "heap y = heap s"
    "page_is_readable y = page_is_readable s" "page_is_writable y = page_is_writable s"
    "page_is_executable y = page_is_executable s" "is_dead y = is_dead s"
    "addr_mask y = addr_mask s" "next_ptr y = next_ptr s"
    using fr by (simp_all add: index_frame_def)
  have my: "maps y = maps ?s3" and hy: "heap y = heap ?s3" using fr by (simp_all add: index_frame_def)
  have py: "page_has_permission y = page_has_permission ?s3" using fr by (rule index_frame_perm)
  have a: "p \<in> set (maps y) \<and> is_valid (heap y p) \<and> Contains (heap y p) page
          \<and> page_aligned page \<and> page_has_permission y page"
    if "page_to_map y page = Some p" for page p
    using ix2 [OF that] unfolding my hy py by simp
  have b: "page_to_map y page \<noteq> None"
    if "page_aligned page \<and> page_has_permission y page \<and> in_valid_range y page" for page
  proof
    assume "page_to_map y page = None"
    from ix3 [OF this] that show False
      unfolding in_valid_range_def list_ex_iff my hy py by blast
  qed
  show "index_exact y" unfolding index_exact_def using a b by blast
qed

lemma SetPermissions_loop_frame:
  assumes "SetPermissions_loop addr limit r w x s = Some y"
  shows "maps y = maps s \<and> heap y = heap s \<and> is_dead y = is_dead s
         \<and> addr_mask y = addr_mask s \<and> next_ptr y = next_ptr s"
proof (rule SetPermissions_loop.raw_induct
    [where P = "\<lambda>addr limit r w x s y. maps y = maps s \<and> heap y = heap s \<and> is_dead y = is_dead s
         \<and> addr_mask y = addr_mask s \<and> next_ptr y = next_ptr s", OF _ assms], goal_cases)
  case (1 f addr limit r w x s y)
  show ?case
  proof (cases "addr < limit")
    case True
    then show ?thesis using 1(1) [of "addr + kPageSize" limit r w x _ y] 1(2) by force
  next
    case False
    then show ?thesis using 1(2) by simp
  qed
qed

lemma SetPermissions_result:
  assumes "SetPermissions s vbase sz r w x = Some y"
    and "\<forall>p \<in> set (maps s). range_wf (addr_mask s) (heap s p)"
  shows "set (maps y) = set (maps s)" "heap y = heap s" "is_dead y = is_dead s"
    "addr_mask y = addr_mask s" "next_ptr y = next_ptr s" "index_exact y"
proof -
  obtain s1 where l: "SetPermissions_loop (AlignDownToPage vbase)
        (AlignDownToPage vbase + RoundUpToPage sz) r w x s = Some s1"
    and c: "CreatePageToRangeMap s1 = Some y"
    using assms(1) by (auto simp: SetPermissions_def Let_def bind_eq_Some_conv)
  have f: "maps s1 = maps s" "heap s1 = heap s" "is_dead s1 = is_dead s"
    "addr_mask s1 = addr_mask s" "next_ptr s1 = next_ptr s"
    using SetPermissions_loop_frame [OF l] by simp_all
  have "\<forall>p \<in> set (maps s1). range_wf (addr_mask s1) (heap s1 p)" using assms(2) f by simp
  from CreatePageToRangeMap_result [OF c this] f
  show "set (maps y) = set (maps s)" "heap y = heap s" "is_dead y = is_dead s"
    "addr_mask y = addr_mask s" "next_ptr y = next_ptr s" "index_exact y"
    by simp_all
qed

lemma heap_grows_refl: "heap_grows s s"
  by (simp add: heap_grows_def)

lemma heap_grows_trans: "heap_grows s t \<Longrightarrow> heap_grows t u \<Longrightarrow> heap_grows s u"
  by (auto simp: heap_grows_def)

lemma alloc_grows:
  "alloc s r = (p, y) \<Longrightarrow>
   p = next_ptr s \<and> heap y p = r \<and> next_ptr y = next_ptr s + 1 \<and> heap_grows s y"
  by (auto simp: alloc_def heap_grows_def)

lemma range_wf_Create:
  assumes "page_aligned base" "page_aligned x"
  shows "range_wf am (Create base (min x am))"
  using assms aligned_no_wrap [of x "min x am"] by (auto simp: range_wf_def Create_def min_def)

lemma range_wf_CreateInvalid:
  assumes "page_aligned base" "page_aligned x"
  shows "range_wf am (CreateInvalid base (min x am))"
  using assms by (auto simp: range_wf_def CreateInvalid_def min_def)

lemma range_wf_sentinel: "range_wf am (CreateInvalid 0 am)"
  by (simp add: range_wf_def CreateInvalid_def page_aligned_def)

lemma range_wf_Copy_low:
  assumes "range_wf am r" "page_aligned base" "base < limit_address r"
  shows "range_wf am (Copy r (base_address r) base)"
proof -
  have "base \<le> am"
    using assms(1,3) by (meson range_wf_def less_imp_le order_trans)
  then show ?thesis
    using assms aligned_no_wrap [of base base] by (simp add: range_wf_def Copy_def)
qed

lemma range_wf_Copy_high:
  assumes "range_wf am r" "limit < am \<longrightarrow> page_aligned limit" "limit < limit_address r"
  shows "range_wf am (Copy r limit (limit_address r))"
proof -
  have "limit < am"
    using assms(1,3) by (meson range_wf_def less_le_trans)
  then show ?thesis using assms by (simp add: range_wf_def Copy_def)
qed

lemma kept_ranges:
  assumes "\<forall>p \<in> set rs \<union> set acc. p < next_ptr s \<and> range_wf am (heap s p)"
    and "heap_grows s y"
    and "\<forall>p \<in> set new. p < next_ptr y \<and> range_wf am (heap y p)"
    and "set rs' \<subseteq> set rs"
  shows "\<forall>p \<in> set rs' \<union> set (acc @ new). p < next_ptr y \<and> range_wf am (heap y p)"
proof
  fix p assume "p \<in> set rs' \<union> set (acc @ new)"
  then consider "p \<in> set rs \<union> set acc" | "p \<in> set new" using assms(4) by auto
  then show "p < next_ptr y \<and> range_wf am (heap y p)"
  proof cases
    case 1
    then have "p < next_ptr s" "range_wf am (heap s p)" using assms(1) by auto
    moreover from this have "heap y p = heap s p" using assms(2) by (simp add: heap_grows_def)
    moreover have "next_ptr s \<le> next_ptr y" using assms(2) by (simp add: heap_grows_def)
    ultimately show ?thesis by simp
  next
    case 2
    then show ?thesis using assms(3) by simp
  qed
qed

lemma RemoveRange_loop_wf:
  assumes al: "page_aligned base" "limit < am \<longrightarrow> page_aligned limit"
  shows "RemoveRange_loop ranges base limit acc s = (out, y) \<Longrightarrow>
     \<forall>p \<in> set ranges \<union> set acc. p < next_ptr s \<and> range_wf am (heap s p) \<Longrightarrow>
     (\<forall>p \<in> set out. p < next_ptr y \<and> range_wf am (heap y p)) \<and> heap_grows s y"
proof (induction ranges arbitrary: acc s)
  case Nil
  then show ?case by (simp add: heap_grows_refl)
next
  case (Cons m ranges)
  let ?r = "heap s m"
  let ?mb = "base_address ?r" and ?ml = "limit_address ?r"
  have m: "m < next_ptr s" "range_wf am ?r" using Cons.prems(2) by simp_all
  have sub: "set ranges \<subseteq> set (m # ranges)" by auto
  consider (keep) "?ml \<le> base \<or> ?mb \<ge> limit"
    | (drop) "\<not> (?ml \<le> base \<or> ?mb \<ge> limit)" "?mb \<ge> base \<and> ?ml \<le> limit"
    | (split) "\<not> (?ml \<le> base \<or> ?mb \<ge> limit)" "\<not> (?mb \<ge> base \<and> ?ml \<le> limit)"
        "?mb < base \<and> ?ml > limit"
    | (pre) "\<not> (?ml \<le> base \<or> ?mb \<ge> limit)" "\<not> (?mb \<ge> base \<and> ?ml \<le> limit)"
        "\<not> (?mb < base \<and> ?ml > limit)" "?mb = base"
    | (suf) "\<not> (?ml \<le> base \<or> ?mb \<ge> limit)" "\<not> (?mb \<ge> base \<and> ?ml \<le> limit)"
        "\<not> (?mb < base \<and> ?ml > limit)" "?mb \<noteq> base"
    by blast
  then show ?case
  proof cases
    case keep
    then have run: "RemoveRange_loop ranges base limit (acc @ [m]) s = (out, y)"
      using Cons.prems(1) by (simp add: Let_def)
    have "\<forall>p \<in> set ranges \<union> set (acc @ [m]). p < next_ptr s \<and> range_wf am (heap s p)"
      using Cons.prems(2) by auto
    from Cons.IH [OF run this] show ?thesis .
  next
    case drop
    then have run: "RemoveRange_loop ranges base limit acc s = (out, y)"
      using Cons.prems(1) by (simp add: Let_def)
    have "\<forall>p \<in> set ranges \<union> set acc. p < next_ptr s \<and> range_wf am (heap s p)"
      using Cons.prems(2) by auto
    from Cons.IH [OF run this] show ?thesis .
  next
    case split
    obtain low s1 where a1: "alloc s (Copy ?r ?mb base) = (low, s1)"
      by (cases "alloc s (Copy ?r ?mb base)")
    have g1: "low = next_ptr s" "heap s1 low = Copy ?r ?mb base" "next_ptr s1 = next_ptr s + 1"
      "heap_grows s s1" using alloc_grows [OF a1] by blast+
    have hm: "heap s1 m = ?r" using g1(4) m(1) by (simp add: heap_grows_def)
    obtain high s2 where a2: "alloc s1 (Copy ?r limit ?ml) = (high, s2)"
      by (cases "alloc s1 (Copy ?r limit ?ml)")
    have g2: "high = next_ptr s1" "heap s2 high = Copy ?r limit ?ml" "next_ptr s2 = next_ptr s1 + 1"
      "heap_grows s1 s2" using alloc_grows [OF a2] by blast+
    have g: "heap_grows s s2" using g1(4) g2(4) by (rule heap_grows_trans)
    have run: "RemoveRange_loop ranges base limit (acc @ [low, high]) s2 = (out, y)"
      using Cons.prems(1) split a1 a2 hm by (simp add: Let_def)
    have lo: "range_wf am (Copy ?r ?mb base)"
      using m(2) al(1) split(1) by (intro range_wf_Copy_low) auto
    have hi: "range_wf am (Copy ?r limit ?ml)"
      using m(2) al(2) split(3) by (intro range_wf_Copy_high) auto
    have "heap s2 low = Copy ?r ?mb base"
      using g2(4) g1(1,2,3) by (simp add: heap_grows_def)
    then have "\<forall>p \<in> set [low, high]. p < next_ptr s2 \<and> range_wf am (heap s2 p)"
      using lo hi g1 g2 by simp
    from kept_ranges [OF Cons.prems(2) g this sub]
    have "(\<forall>p \<in> set out. p < next_ptr y \<and> range_wf am (heap y p)) \<and> heap_grows s2 y"
      by (rule Cons.IH [OF run])
    then show ?thesis using g heap_grows_trans by blast
  next
    case pre
    obtain high s1 where a1: "alloc s (Copy ?r limit ?ml) = (high, s1)"
      by (cases "alloc s (Copy ?r limit ?ml)")
    have g1: "high = next_ptr s" "heap s1 high = Copy ?r limit ?ml" "next_ptr s1 = next_ptr s + 1"
      "heap_grows s s1" using alloc_grows [OF a1] by blast+
    have run: "RemoveRange_loop ranges base limit (acc @ [high]) s1 = (out, y)"
      using Cons.prems(1) pre a1 by (simp add: Let_def)
    have "limit < ?ml" using pre by auto
    then have hi: "range_wf am (Copy ?r limit ?ml)"
      using m(2) al(2) by (intro range_wf_Copy_high) auto
    then have "\<forall>p \<in> set [high]. p < next_ptr s1 \<and> range_wf am (heap s1 p)"
      using g1 by simp
    from kept_ranges [OF Cons.prems(2) g1(4) this sub]
    have "(\<forall>p \<in> set out. p < next_ptr y \<and> range_wf am (heap y p)) \<and> heap_grows s1 y"
      by (rule Cons.IH [OF run])
    then show ?thesis using g1(4) heap_grows_trans by blast
  next
    case suf
    obtain low s1 where a1: "alloc s (Copy ?r ?mb base) = (low, s1)"
      by (cases "alloc s (Copy ?r ?mb base)")
    have g1: "low = next_ptr s" "heap s1 low = Copy ?r ?mb base" "next_ptr s1 = next_ptr s + 1"
      "heap_grows s s1" using alloc_grows [OF a1] by blast+
    have run: "RemoveRange_loop ranges base limit (acc @ [low]) s1 = (out, y)"
      using Cons.prems(1) suf a1 by (simp add: Let_def)
    have "base < ?ml" using suf by auto
    then have lo: "range_wf am (Copy ?r ?mb base)"
      using m(2) al(1) by (intro range_wf_Copy_low) auto
    then have "\<forall>p \<in> set [low]. p < next_ptr s1 \<and> range_wf am (heap s1 p)"
      using g1 by simp
    from kept_ranges [OF Cons.prems(2) g1(4) this sub]
    have "(\<forall>p \<in> set out. p < next_ptr y \<and> range_wf am (heap y p)) \<and> heap_grows s1 y"
      by (rule Cons.IH [OF run])
    then show ?thesis using g1(4) heap_grows_trans by blast
  qed
qed

lemma AddressSpace_new_inv:
  assumes "AddressSpace_new n = Some s"
  shows "space_inv s"
proof -
  let ?s0 = "\<lparr>maps = [1], page_to_map = (\<lambda>_. None), wnx_page_to_map = (\<lambda>_. None),
         last_map_cache = (\<lambda>_. None), wnx_last_map_cache = (\<lambda>_. None),
         min_addr = 0xFFFFFFFFFFFFFFFF, addr_mask = GetAddressMask n, invalid = 1,
         page_is_readable = {}, page_is_writable = {}, page_is_executable = {},
         trace_heads = {}, is_dead = False,
         heap = (\<lambda>_. CreateInvalid 0 (GetAddressMask n)), next_ptr = 2\<rparr>"
  have c: "CreatePageToRangeMap ?s0 = Some s"
    using assms by (simp add: AddressSpace_new_def Let_def)
  have "\<forall>p \<in> set (maps ?s0). range_wf (addr_mask ?s0) (heap ?s0 p)"
    by (simp add: range_wf_sentinel)
  from CreatePageToRangeMap_result [OF c this]
  have "set (maps s) = {1}" "heap s = (\<lambda>_. CreateInvalid 0 (GetAddressMask n))"
    "next_ptr s = 2" "index_exact s" "\<not> is_dead s" "addr_mask s = GetAddressMask n"
    by simp_all
  then show ?thesis
    by (simp add: space_inv_def maps_wf_def range_wf_sentinel GetAddressMask_def)
qed

lemma SetPermissions_inv:
  assumes "space_inv s" "SetPermissions s vbase sz r w x = Some y"
  shows "space_inv y"
proof -
  have wf: "\<forall>p \<in> set (maps s). range_wf (addr_mask s) (heap s p)"
    using assms(1) by (simp add: space_inv_def maps_wf_def)
  from SetPermissions_result [OF assms(2) wf] assms(1)
  show ?thesis by (auto simp: space_inv_def maps_wf_def)
qed

lemma remap_inv:
  assumes inv: "maps_wf s"
    and al: "page_aligned base" "limit < addr_mask s \<longrightarrow> page_aligned limit"
    and new: "range_wf (addr_mask s) r"
    and a: "alloc s r = (new_map, s1)"
    and rr: "RemoveRange (maps s1) base limit s1 = (old_ranges, s2)"
    and sp: "SetPermissions (s2\<lparr>maps := old_ranges @ [new_map]\<rparr>) b sz cr cw cx = Some y"
  shows "maps_wf y \<and> index_exact y \<and> is_dead y = is_dead s \<and> addr_mask y = addr_mask s"
proof -
  let ?am = "addr_mask s"
  have g1: "new_map = next_ptr s" "heap s1 new_map = r" "next_ptr s1 = next_ptr s + 1"
    "heap_grows s s1" using alloc_grows [OF a] by blast+
  have m1: "maps s1 = maps s" using g1(4) by (simp add: heap_grows_def)
  have "\<forall>p \<in> set (maps s). p < next_ptr s1 \<and> range_wf ?am (heap s1 p)"
  proof
    fix p assume "p \<in> set (maps s)"
    then have "p < next_ptr s" "range_wf ?am (heap s p)" using inv by (simp_all add: maps_wf_def)
    moreover from this have "heap s1 p = heap s p" using g1(4) by (simp add: heap_grows_def)
    ultimately show "p < next_ptr s1 \<and> range_wf ?am (heap s1 p)" using g1(3) by simp
  qed
  then have pre: "\<forall>p \<in> set (maps s1) \<union> set []. p < next_ptr s1 \<and> range_wf ?am (heap s1 p)"
    using m1 by simp
  have run: "RemoveRange_loop (maps s1) base limit [] s1 = (old_ranges, s2)"
    using rr by (simp add: RemoveRange_def)
  from RemoveRange_loop_wf [OF al run pre]
  have old: "\<forall>p \<in> set old_ranges. p < next_ptr s2 \<and> range_wf ?am (heap s2 p)"
    and g2: "heap_grows s1 s2" by blast+
  have am2: "addr_mask s2 = ?am" "is_dead s2 = is_dead s"
    using g1(4) g2 by (simp_all add: heap_grows_def)
  have "new_map < next_ptr s1" using g1 by simp
  then have nm: "new_map < next_ptr s2" "heap s2 new_map = r"
    using g2 g1(2) by (auto simp: heap_grows_def)
  let ?s2 = "s2\<lparr>maps := old_ranges @ [new_map]\<rparr>"
  have wf2: "\<forall>p \<in> set (maps ?s2). p < next_ptr ?s2 \<and> range_wf (addr_mask ?s2) (heap ?s2 p)"
    using old nm new am2 by auto
  then have "\<forall>p \<in> set (maps ?s2). range_wf (addr_mask ?s2) (heap ?s2 p)" by blast
  from SetPermissions_result [OF sp this] wf2 am2
  show ?thesis by (simp add: maps_wf_def)
qed

lemma limit_aligned:
  assumes "page_aligned base"
  shows "min (base + RoundUpToPage sz) am < am \<longrightarrow> page_aligned (min (base + RoundUpToPage sz) am)"
proof
  assume "min (base + RoundUpToPage sz) am < am"
  then have "min (base + RoundUpToPage sz) am = base + RoundUpToPage sz"
    by (simp add: min_def split: if_splits)
  then show "page_aligned (min (base + RoundUpToPage sz) am)"
    using aligned_add [OF assms RoundUp_aligned, of sz] by simp
qed

lemma CreateMap_inv:
  assumes "space_inv s" "CreateMap s vbase sz = Some (Inr (res, y))"
  shows "space_inv y"
proof (cases "is_dead s")
  case True
  then show ?thesis using assms by (simp add: CreateMap_def Let_def)
next
  case False
  let ?base = "AlignDownToPage vbase"
  let ?limit = "min (?base + RoundUpToPage sz) (addr_mask s)"
  obtain new_map s1 where a: "alloc s (Create ?base ?limit) = (new_map, s1)"
    by (cases "alloc s (Create ?base ?limit)")
  obtain old_ranges s2 where rr: "RemoveRange (maps s1) ?base ?limit s1 = (old_ranges, s2)"
    by (cases "RemoveRange (maps s1) ?base ?limit s1")
  have "\<exists>y'. SetPermissions (s2\<lparr>maps := old_ranges @ [new_map]\<rparr>) ?base (?limit - ?base)
          True True False = Some y' \<and> y = y'"
    using assms(2) False a rr
    by (auto simp: CreateMap_def Let_def split: if_splits)
  then have sp: "SetPermissions (s2\<lparr>maps := old_ranges @ [new_map]\<rparr>) ?base (?limit - ?base)
          True True False = Some y" by simp
  have inv: "maps_wf s" using assms(1) by (simp add: space_inv_def)
  have al: "page_aligned ?base" by (rule AlignDown_aligned)
  have new: "range_wf (addr_mask s) (Create ?base ?limit)"
    using al aligned_add [OF al RoundUp_aligned] by (rule range_wf_Create)
  have "maps_wf y \<and> index_exact y \<and> is_dead y = is_dead s \<and> addr_mask y = addr_mask s"
    using inv al limit_aligned [OF al] new a rr sp by (rule remap_inv)
  then show ?thesis using assms(1) False by (simp add: space_inv_def)
qed

lemma AddMap_inv:
  assumes "space_inv s" "AddMap s vbase sz = Some (Inr y)"
  shows "space_inv y"
proof -
  obtain res where "CreateMap s vbase sz = Some (Inr (res, y))"
    using assms(2) by (cases "CreateMap s vbase sz"; cases "the (CreateMap s vbase sz)")
      (auto simp: AddMap_def)
  with assms(1) show ?thesis by (rule CreateMap_inv)
qed

lemma RemoveMap_inv:
  assumes "space_inv s" "RemoveMap s vbase sz = Some (Inr y)"
  shows "space_inv y"
proof (cases "is_dead s")
  case True
  then show ?thesis using assms by (simp add: RemoveMap_def Let_def)
next
  case False
  let ?base = "AlignDownToPage vbase"
  let ?limit = "min (?base + RoundUpToPage sz) (addr_mask s)"
  obtain new_map s1 where a: "alloc s (CreateInvalid ?base ?limit) = (new_map, s1)"
    by (cases "alloc s (CreateInvalid ?base ?limit)")
  obtain old_ranges s2 where rr: "RemoveRange (maps s1) ?base ?limit s1 = (old_ranges, s2)"
    by (cases "RemoveRange (maps s1) ?base ?limit s1")
  have "\<exists>y'. SetPermissions (s2\<lparr>maps := old_ranges @ [new_map]\<rparr>) ?base (?limit - ?base)
          False False False = Some y' \<and> y = y'"
    using assms(2) False a rr
    by (auto simp: RemoveMap_def Let_def split: if_splits)
  then have sp: "SetPermissions (s2\<lparr>maps := old_ranges @ [new_map]\<rparr>) ?base (?limit - ?base)
          False False False = Some y" by simp
  have inv: "maps_wf s" using assms(1) by (simp add: space_inv_def)
  have al: "page_aligned ?base" by (rule AlignDown_aligned)
  have "maps_wf y \<and> index_exact y \<and> is_dead y = is_dead s \<and> addr_mask y = addr_mask s"
    using inv al limit_aligned [OF al]
      range_wf_CreateInvalid [OF al aligned_add [OF al RoundUp_aligned]] a rr sp
    by (rule remap_inv)
  then show ?thesis using assms(1) False by (simp add: space_inv_def)
qed

lemma Kill_inv: "space_inv s \<Longrightarrow> space_inv (Kill s)"
  by (simp add: space_inv_def maps_wf_def index_exact_def Kill_def in_valid_range_def)

lemma MarkAsTraceHead_inv: "space_inv s \<Longrightarrow> space_inv (MarkAsTraceHead s head)"
  by (simp add: space_inv_def maps_wf_def index_exact_def MarkAsTraceHead_def in_valid_range_def
      page_has_permission_def CanReadAligned_def CanWriteAligned_def CanExecuteAligned_def)

lemma valid_range_page:
  assumes "space_inv s" "in_valid_range s a"
  shows "in_valid_range s (AlignDownToPage a)"
proof -
  obtain p where p: "p \<in> set (maps s)" "is_valid (heap s p)" "Contains (heap s p) a"
    using assms(2) by (auto simp: in_valid_range_def list_ex_iff)
  then have "page_aligned (base_address (heap s p))"
    using assms(1) by (simp add: space_inv_def maps_wf_def range_wf_def)
  then have "base_address (heap s p) \<le> AlignDownToPage a"
    using p(3) by (intro aligned_le_AlignDown) (simp_all add: Contains_def)
  moreover have "AlignDownToPage a < limit_address (heap s p)"
    using AlignDown_le [of a] p(3) by (simp add: Contains_def) (meson le_less_trans)
  ultimately show ?thesis
    using p(1,2) by (auto simp: in_valid_range_def list_ex_iff Contains_def)
qed

lemma page_valid_range:
  assumes "space_inv s" "in_valid_range s (AlignDownToPage a)"
    and "addr_mask s = 0xFFFFFFFF \<longrightarrow> a \<noteq> 0xFFFFFFFF"
  shows "in_valid_range s a"
proof -
  let ?p = "AlignDownToPage a"
  obtain p where p: "p \<in> set (maps s)" "is_valid (heap s p)" "Contains (heap s p) ?p"
    using assms(2) by (auto simp: in_valid_range_def list_ex_iff)
  let ?l = "limit_address (heap s p)"
  have wf: "unat ?l + 4096 \<le> 2 ^ 64" "page_aligned ?l \<or> ?l = addr_mask s"
    using assms(1) p(1,2) by (simp_all add: space_inv_def maps_wf_def range_wf_def)
  have lt: "?p < ?l" using p(3) by (simp add: Contains_def)
  have ua: "unat a < unat ?p + 4096"
    using mod_less_divisor [of 4096 "unat a"] div_mult_mod_eq [of "unat a" 4096]
    unfolding unat_AlignDown by linarith
  have "a < ?l"
  proof (cases "page_aligned ?l")
    case True
    have "unat (?p + kPageSize) = unat ?p + 4096" "?p + kPageSize \<le> ?l"
      using aligned_step [OF AlignDown_aligned True lt] by simp_all
    then have "unat ?p + 4096 \<le> unat ?l" by (simp add: word_le_nat_alt)
    then show ?thesis using ua by (simp add: word_less_nat_alt)
  next
    case False
    then have l: "?l = addr_mask s" using wf(2) by simp
    have "addr_mask s \<noteq> 0xFFFFFFFFFFFFFFFF" using wf(1) l by auto
    then have am: "addr_mask s = 0xFFFFFFFF" using assms(1) by (simp add: space_inv_def)
    have "unat ?p < 4294967295" using lt l am by (simp add: word_less_nat_alt)
    moreover obtain k where k: "unat ?p = 4096 * k"
      using AlignDown_aligned [of a] unfolding page_aligned_def by (auto simp: mod_eq_0_iff_dvd)
    ultimately have "k < 1048576" by simp
    then have "4096 * k + 4096 \<le> 4096 * 1048576" by simp
    then have "unat a < 4294967296" using ua k by simp
    moreover have "unat a \<noteq> 4294967295"
      using assms(3) am by (simp add: word_unat_eq_iff)
    ultimately show ?thesis using l am by (simp add: word_less_nat_alt)
  qed
  moreover have "base_address (heap s p) \<le> a"
    using p(3) AlignDown_le [of a] by (simp add: Contains_def) (meson order_trans)
  ultimately show ?thesis using p(1,2) by (auto simp: in_valid_range_def list_ex_iff Contains_def)
qed

lemma space_inv_IsMapped_page:
  assumes "space_inv s"
  shows "IsMapped s a \<longleftrightarrow>
     in_valid_range s (AlignDownToPage a) \<and> page_has_permission s (AlignDownToPage a)"
proof -
  let ?p = "AlignDownToPage a"
  have ix: "index_exact s" using assms by (simp add: space_inv_def)
  have dead: "is_dead s \<Longrightarrow> \<not> in_valid_range s ?p"
    using assms by (simp add: space_inv_def in_valid_range_def)
  show ?thesis
  proof (cases "page_to_map s ?p")
    case None
    then have "\<not> (page_has_permission s ?p \<and> in_valid_range s ?p)"
      using ix AlignDown_aligned [of a] unfolding index_exact_def by blast
    then show ?thesis using None by (auto simp: IsMapped_def)
  next
    case (Some p)
    then have "p \<in> set (maps s)" "is_valid (heap s p)" "Contains (heap s p) ?p"
      "page_has_permission s ?p"
      using ix unfolding index_exact_def by blast+
    then show ?thesis
      using Some dead by (auto simp: IsMapped_def in_valid_range_def list_ex_iff)
  qed
qed

lemma same_layout_refl: "same_layout s s"
  by (simp add: same_layout_def)

lemma same_layout_trans: "same_layout s t \<Longrightarrow> same_layout t u \<Longrightarrow> same_layout s u"
  by (simp add: same_layout_def)

lemma same_layout_inv:
  assumes "same_layout s y" "space_inv s"
  shows "space_inv y"
proof -
  have perm: "page_has_permission y = page_has_permission s"
    using assms(1) by (simp add: same_layout_def page_has_permission_def fun_eq_iff
        CanReadAligned_def CanWriteAligned_def CanExecuteAligned_def)
  have ivr: "in_valid_range y = in_valid_range s"
    using assms(1) by (simp add: same_layout_def in_valid_range_def fun_eq_iff Contains_def)
  have "maps_wf y"
    using assms by (simp add: same_layout_def space_inv_def maps_wf_def range_wf_def)
  moreover have "index_exact y"
    using assms unfolding space_inv_def index_exact_def perm ivr
    by (simp add: same_layout_def Contains_def)
  ultimately show ?thesis using assms by (simp add: space_inv_def same_layout_def)
qed

lemma FindRangeAligned_layout: "FindRangeAligned s p = (r, y) \<Longrightarrow> same_layout s y"
  by (auto simp: FindRangeAligned_def FindRangeAligned_slot_def FindRangeAligned_index_def Let_def
      same_layout_def split: option.splits if_splits)

lemma FindWNXRangeAligned_layout: "FindWNXRangeAligned s p = (r, y) \<Longrightarrow> same_layout s y"
  by (auto simp: FindWNXRangeAligned_def FindWNXRangeAligned_slot_def FindWNXRangeAligned_index_def
      Let_def same_layout_def split: option.splits if_splits)

lemma smc_check_layout: "same_layout s (smc_check vc r p s)"
  by (simp add: same_layout_def smc_check_def InvalidateCodeVersion_def)

lemma Write_layout:
  "Write (heap s r) a b = Some r' \<Longrightarrow> same_layout s (s\<lparr>heap := (heap s)(r := r')\<rparr>)"
  by (auto simp: Write_def same_layout_def split: if_splits)

lemma write_bytes_layout:
  "write_bytes r e a ins s = (ok, a', ins', y) \<Longrightarrow> same_layout s y"
proof (induction ins arbitrary: a s)
  case Nil
  then show ?case by (simp add: same_layout_refl)
next
  case (Cons b ins)
  show ?case
  proof (cases "a < e")
    case False
    then show ?thesis using Cons.prems by (simp add: same_layout_refl)
  next
    case True
    show ?thesis
    proof (cases "Write (heap s r) a b")
      case None
      then show ?thesis using Cons.prems True by (simp add: same_layout_refl)
    next
      case (Some r')
      then have "write_bytes r e (a + 1) ins (s\<lparr>heap := (heap s)(r := r')\<rparr>) = (ok, a', ins', y)"
        using Cons.prems True by simp
      then have "same_layout (s\<lparr>heap := (heap s)(r := r')\<rparr>) y" by (rule Cons.IH)
      with Write_layout [OF Some] show ?thesis by (rule same_layout_trans)
    qed
  qed
qed

lemma TryRead_pages_layout:
  assumes "TryRead_pages p e a out s = Some res"
  shows "same_layout s (snd (snd res))"
proof (rule TryRead_pages.raw_induct
    [where P = "\<lambda>p e a out s res. same_layout s (snd (snd res))", OF _ assms], goal_cases)
  case (1 f p e a out s res)
  show ?case
  proof (cases "p < e")
    case False
    then show ?thesis using 1(2) by (auto simp: same_layout_refl)
  next
    case True
    obtain rng s1 where fr: "FindRangeAligned s p = (rng, s1)" by (cases "FindRangeAligned s p")
    obtain ok a' out' where rb:
      "read_bytes (heap s1 rng) (min e (p + kPageSize)) a out = (ok, a', out')"
      by (cases "read_bytes (heap s1 rng) (min e (p + kPageSize)) a out")
    have l1: "same_layout s s1" using fr by (rule FindRangeAligned_layout)
    show ?thesis
    proof (cases ok)
      case True
      then have "f (p + kPageSize) e a' out' s1 = Some res" using 1(2) \<open>p < e\<close> fr rb by simp
      then have "same_layout s1 (snd (snd res))" by (rule 1(1))
      with l1 show ?thesis by (rule same_layout_trans)
    next
      case False
      then have "res = (False, out', s1)" using 1(2) \<open>p < e\<close> fr rb by simp
      then show ?thesis using l1 by simp
    qed
  qed
qed

lemma TryRead_layout: "TryRead s a n = Some (ok, out, y) \<Longrightarrow> same_layout s y"
  using TryRead_pages_layout [of _ _ _ _ s "(ok, out, y)"] by (simp add: TryRead_def Let_def)

lemma TryWrite_pages_layout:
  assumes "TryWrite_pages vc p e a ins s = Some res"
  shows "same_layout s (snd res)"
proof (rule TryWrite_pages.raw_induct
    [where P = "\<lambda>vc p e a ins s res. same_layout s (snd res)", OF _ assms], goal_cases)
  case (1 f vc p e a ins s res)
  show ?case
  proof (cases "p < e \<and> CanWriteAligned s p")
    case False
    then show ?thesis using 1(2) by (auto simp: same_layout_refl split: if_splits)
  next
    case True
    obtain rng s1 where fr: "FindRangeAligned s p = (rng, s1)" by (cases "FindRangeAligned s p")
    let ?s1 = "smc_check vc rng p s1"
    obtain ok a' ins' s2 where wb:
      "write_bytes rng (min e (p + kPageSize)) a ins ?s1 = (ok, a', ins', s2)"
      by (cases "write_bytes rng (min e (p + kPageSize)) a ins ?s1")
    have "same_layout s s1" using fr by (rule FindRangeAligned_layout)
    then have "same_layout s ?s1" using smc_check_layout by (rule same_layout_trans)
    then have l2: "same_layout s s2" using write_bytes_layout [OF wb] by (rule same_layout_trans)
    show ?thesis
    proof (cases ok)
      case True
      then have "f vc (p + kPageSize) e a' ins' s2 = Some res"
        using 1(2) \<open>p < e \<and> CanWriteAligned s p\<close> fr wb by simp
      then have "same_layout s2 (snd res)" by (rule 1(1))
      with l2 show ?thesis by (rule same_layout_trans)
    next
      case False
      then have "res = (False, s2)" using 1(2) \<open>p < e \<and> CanWriteAligned s p\<close> fr wb by simp
      then show ?thesis using l2 by simp
    qed
  qed
qed

lemma TryWrite_layout: "TryWrite vc s a val = Some (ok, y) \<Longrightarrow> same_layout s y"
  using TryWrite_pages_layout [of vc _ _ _ _ s "(ok, y)"] by (simp add: TryWrite_def Let_def)

lemma TryRead_typed_layout:
  assumes "TryRead_typed n s a = Some (ok, out, y)"
  shows "same_layout s y"
proof -
  obtain rng s1 where fr: "FindRange s (a AND addr_mask s) = (rng, s1)"
    by (cases "FindRange s (a AND addr_mask s)")
  then have l1: "same_layout s s1" unfolding FindRange_def by (rule FindRangeAligned_layout)
  have "y = s1 \<or> TryRead s1 (a AND addr_mask s) (of_nat n) = Some (ok, out, y)"
    using assms fr by (auto simp: TryRead_typed_def Let_def split: option.splits if_splits)
  then show ?thesis using l1 TryRead_layout same_layout_trans by blast
qed

lemma TryWrite_typed_layout:
  assumes "TryWrite_typed vc s a val = Some (ok, y)"
  shows "same_layout s y"
proof -
  let ?a = "a AND addr_mask s"
  obtain rng s1 where fr: "FindWNXRange s ?a = (rng, s1)" by (cases "FindWNXRange s ?a")
  then have l1: "same_layout s s1" unfolding FindWNXRange_def by (rule FindWNXRangeAligned_layout)
  have "y = s1\<lparr>heap := (heap s1)(rng := (heap s1 rng)
                  \<lparr>bytes_at := store_bytes (bytes_at (heap s1 rng)) ?a val\<rparr>)\<rparr>
        \<or> TryWrite vc s1 ?a val = Some (ok, y)"
    using assms fr
    by (auto simp: TryWrite_typed_def ToReadWriteVirtualAddress_def Let_def
        split: option.splits if_splits)
  then show ?thesis
  proof
    assume "y = s1\<lparr>heap := (heap s1)(rng := (heap s1 rng)
                  \<lparr>bytes_at := store_bytes (bytes_at (heap s1 rng)) ?a val\<rparr>)\<rparr>"
    then have "same_layout s1 y" by (simp add: same_layout_def)
    with l1 show ?thesis by (rule same_layout_trans)
  next
    assume "TryWrite vc s1 ?a val = Some (ok, y)"
    then have "same_layout s1 y" by (rule TryWrite_layout)
    with l1 show ?thesis by (rule same_layout_trans)
  qed
qed

lemma TryRead_u8_layout: "TryRead_u8 s a = (res, y) \<Longrightarrow> same_layout s y"
  by (auto simp: TryRead_u8_def FindRange_def Let_def split: prod.splits
      intro: FindRangeAligned_layout)

lemma TryWrite_u8_layout:
  assumes "TryWrite_u8 vc s a val = Some (ok, y)"
  shows "same_layout s y"
proof -
  let ?a = "a AND addr_mask s"
  obtain rng s1 where fr: "FindWNXRange s ?a = (rng, s1)" by (cases "FindWNXRange s ?a")
  then have l1: "same_layout s s1" unfolding FindWNXRange_def by (rule FindWNXRangeAligned_layout)
  show ?thesis
  proof (cases "Write (heap s1 rng) ?a val")
    case None
    then have "TryWrite vc s1 ?a [val] = Some (ok, y)"
      using assms fr by (simp add: TryWrite_u8_def Let_def)
    then have "same_layout s1 y" by (rule TryWrite_layout)
    with l1 show ?thesis by (rule same_layout_trans)
  next
    case (Some r)
    then have "y = s1\<lparr>heap := (heap s1)(rng := r)\<rparr>"
      using assms fr by (simp add: TryWrite_u8_def Let_def)
    then have "same_layout s1 y" using Write_layout [OF Some] by simp
    with l1 show ?thesis by (rule same_layout_trans)
  qed
qed

lemma TryReadExecutable_layout: "TryReadExecutable s a = (res, y) \<Longrightarrow> same_layout s y"
  by (auto simp: TryReadExecutable_def Let_def split: prod.splits option.splits
      intro: FindRangeAligned_layout)

lemma ComputeCodeVersion_layout:
  assumes "ComputeCodeVersion vc digest s a = (v, y)"
  shows "same_layout s y"
proof (cases vc)
  case False
  then show ?thesis using assms by (simp add: ComputeCodeVersion_def same_layout_refl)
next
  case True
  obtain rng s1 where fr: "FindRange s (a AND addr_mask s) = (rng, s1)"
    by (cases "FindRange s (a AND addr_mask s)")
  then have l1: "same_layout s s1" unfolding FindRange_def by (rule FindRangeAligned_layout)
  have "same_layout s1 y"
    using assms True fr
    by (auto simp: ComputeCodeVersion_def ComputeCodeVersion_range_def Let_def same_layout_def
        split: option.splits if_splits)
  with l1 show ?thesis by (rule same_layout_trans)
qed

lemma clone_maps_wf:
  "clone_maps ms acc s = (out, y) \<Longrightarrow>
   \<forall>p \<in> set ms \<union> set acc. p < next_ptr s \<and> range_wf am (heap s p) \<Longrightarrow>
   (\<forall>p \<in> set out. p < next_ptr y \<and> range_wf am (heap y p)) \<and> heap_grows s y"
proof (induction ms arbitrary: acc s)
  case Nil
  then show ?case by (simp add: heap_grows_refl)
next
  case (Cons m ms)
  have sub: "set ms \<subseteq> set (m # ms)" by auto
  show ?case
  proof (cases "is_valid (heap s m)")
    case False
    then have run: "clone_maps ms (acc @ [m]) s = (out, y)" using Cons.prems(1) by simp
    have "\<forall>p \<in> set ms \<union> set (acc @ [m]). p < next_ptr s \<and> range_wf am (heap s p)"
      using Cons.prems(2) by auto
    from Cons.IH [OF run this] show ?thesis .
  next
    case True
    obtain c s1 where a: "alloc s (Clone (heap s m)) = (c, s1)"
      by (cases "alloc s (Clone (heap s m))")
    have g1: "c = next_ptr s" "heap s1 c = Clone (heap s m)" "next_ptr s1 = next_ptr s + 1"
      "heap_grows s s1" using alloc_grows [OF a] by blast+
    have run: "clone_maps ms (acc @ [c]) s1 = (out, y)" using Cons.prems(1) True a by simp
    have "range_wf am (heap s m)" using Cons.prems(2) by simp
    then have "\<forall>p \<in> set [c]. p < next_ptr s1 \<and> range_wf am (heap s1 p)"
      using g1 by (simp add: Clone_def)
    from kept_ranges [OF Cons.prems(2) g1(4) this sub]
    have "(\<forall>p \<in> set out. p < next_ptr y \<and> range_wf am (heap y p)) \<and> heap_grows s1 y"
      by (rule Cons.IH [OF run])
    then show ?thesis using g1(4) heap_grows_trans by blast
  qed
qed

lemma AddressSpace_copy_inv:
  assumes "space_inv s" "AddressSpace_copy s = Some y"
  shows "space_inv y"
proof -
  obtain new_maps s1 where cm: "clone_maps (maps s) [] s = (new_maps, s1)"
    by (cases "clone_maps (maps s) [] s")
  let ?s1 = "s1\<lparr>maps := new_maps, page_to_map := (\<lambda>_. None), wnx_page_to_map := (\<lambda>_. None),
                last_map_cache := (\<lambda>_. None), wnx_last_map_cache := (\<lambda>_. None)\<rparr>"
  have c: "CreatePageToRangeMap ?s1 = Some y"
    using assms(2) cm by (simp add: AddressSpace_copy_def)
  have "\<forall>p \<in> set (maps s) \<union> set []. p < next_ptr s \<and> range_wf (addr_mask s) (heap s p)"
    using assms(1) by (simp add: space_inv_def maps_wf_def)
  from clone_maps_wf [OF cm this]
  have wf: "\<forall>p \<in> set new_maps. p < next_ptr s1 \<and> range_wf (addr_mask s) (heap s1 p)"
    and g: "heap_grows s s1" by blast+
  have f: "addr_mask s1 = addr_mask s" "is_dead s1 = is_dead s"
    using g by (simp_all add: heap_grows_def)
  have "\<forall>p \<in> set (maps ?s1). range_wf (addr_mask ?s1) (heap ?s1 p)" using wf f by simp
  from CreatePageToRangeMap_result [OF c this]
  have r: "set (maps y) = set new_maps" "heap y = heap s1" "is_dead y = is_dead s"
    "addr_mask y = addr_mask s" "next_ptr y = next_ptr s1" "index_exact y"
    using f by simp_all
  have "maps y = []" if "is_dead s"
  proof -
    have "maps s = []" using assms(1) that by (simp add: space_inv_def)
    then have "new_maps = []" using cm by simp
    then show ?thesis using r(1) by simp
  qed
  then show ?thesis using r wf assms(1) by (simp add: space_inv_def maps_wf_def)
qed

lemma after_call_inv:
  assumes "space_inv s" "after_call vc c s = Some y"
  shows "space_inv y"
proof (cases c)
  case CallCopy
  then show ?thesis using assms AddressSpace_copy_inv by simp
next
  case (CallFindRange a)
  then have "FindRangeAligned s (AlignDownToPage a) = (fst (FindRange s a), y)"
    using assms(2) by (auto simp: FindRange_def)
  then have "same_layout s y" by (rule FindRangeAligned_layout)
  then show ?thesis using assms(1) by (rule same_layout_inv)
next
  case (CallFindWNXRange a)
  then have "FindWNXRangeAligned s (AlignDownToPage a) = (fst (FindWNXRange s a), y)"
    using assms(2) by (auto simp: FindWNXRange_def)
  then have "same_layout s y" by (rule FindWNXRangeAligned_layout)
  then show ?thesis using assms(1) by (rule same_layout_inv)
next
  case (CallAddMap vbase sz)
  then have "AddMap s vbase sz = Some (Inr y)"
    using assms(2) by (auto split: option.splits sum.splits)
  with assms(1) show ?thesis by (rule AddMap_inv)
next
  case (CallRemoveMap vbase sz)
  then have "RemoveMap s vbase sz = Some (Inr y)"
    using assms(2) by (auto split: option.splits sum.splits)
  with assms(1) show ?thesis by (rule RemoveMap_inv)
next
  case (CallSetPermissions vbase sz r w x)
  then show ?thesis using assms SetPermissions_inv by simp
next
  case CallKill
  then show ?thesis using assms Kill_inv by auto
next
  case (CallMarkAsTraceHead head)
  then show ?thesis using assms MarkAsTraceHead_inv by auto
next
  case (CallTryRead a sz)
  then obtain ok out where "TryRead s a sz = Some (ok, out, y)" using assms(2) by auto
  then have "same_layout s y" by (rule TryRead_layout)
  then show ?thesis using assms(1) by (rule same_layout_inv)
next
  case (CallTryWrite a val)
  then obtain ok where "TryWrite vc s a val = Some (ok, y)" using assms(2) by auto
  then have "same_layout s y" by (rule TryWrite_layout)
  then show ?thesis using assms(1) by (rule same_layout_inv)
next
  case (CallTryRead_u8 a)
  then have "TryRead_u8 s a = (fst (TryRead_u8 s a), y)" using assms(2) by auto
  then have "same_layout s y" by (rule TryRead_u8_layout)
  then show ?thesis using assms(1) by (rule same_layout_inv)
next
  case (CallTryRead_typed n a)
  then obtain ok out where "TryRead_typed n s a = Some (ok, out, y)" using assms(2) by auto
  then have "same_layout s y" by (rule TryRead_typed_layout)
  then show ?thesis using assms(1) by (rule same_layout_inv)
next
  case (CallTryWrite_u8 a val)
  then obtain ok where "TryWrite_u8 vc s a val = Some (ok, y)" using assms(2) by auto
  then have "same_layout s y" by (rule TryWrite_u8_layout)
  then show ?thesis using assms(1) by (rule same_layout_inv)
next
  case (CallTryWrite_typed a val)
  then obtain ok where "TryWrite_typed vc s a val = Some (ok, y)" using assms(2) by auto
  then have "same_layout s y" by (rule TryWrite_typed_layout)
  then show ?thesis using assms(1) by (rule same_layout_inv)
next
  case (CallTryReadExecutable a)
  then have "TryReadExecutable s a = (fst (TryReadExecutable s a), y)" using assms(2) by auto
  then have "same_layout s y" by (rule TryReadExecutable_layout)
  then show ?thesis using assms(1) by (rule same_layout_inv)
next
  case (CallComputeCodeVersion digest a)
  then have "ComputeCodeVersion vc digest s a = (fst (ComputeCodeVersion vc digest s a), y)"
    using assms(2) by auto
  then have "same_layout s y" by (rule ComputeCodeVersion_layout)
  then show ?thesis using assms(1) by (rule same_layout_inv)
qed

lemma after_calls_inv: "space_inv s \<Longrightarrow> after_calls vc cs s = Some y \<Longrightarrow> space_inv y"
proof (induction cs arbitrary: s)
  case Nil
  then show ?case by simp
next
  case (Cons c cs)
  then obtain s1 where "after_call vc c s = Some s1" "after_calls vc cs s1 = Some y"
    by (auto simp: bind_eq_Some_conv)
  then show ?case using Cons.IH Cons.prems(1) after_call_inv by blast
qed

lemma AddressSpace_new_32: "AddressSpace_new 32 = Some empty_space32"
  by (simp add: empty_space32_def eval_defs)

text \<open>The claim of C8 fails in two places. A page enters \<open>page_to_map\<close> only when it has a
  permission (\<open>if (can_read || can_write || can_exec)\<close> in \<open>CreatePageToRangeMap\<close>), so an
  address of a valid range whose page has no permission is not mapped: \<open>0x1000\<close> after
  \<open>AddMap(0x1000, 0x1000)\<close> and \<open>SetPermissions(0x1000, 0x1000, false, false, false)\<close>. And
  in a 32-bit space the limit of a range that reaches the top is the address mask
  \<open>0xFFFFFFFF\<close>, so this address lies in no range, while \<open>IsMapped\<close> looks its page up:
  after \<open>AddMap(0xFFFFF000, 0x1000)\<close> it is mapped.\<close>

theorem IsMapped_misses_valid_ranges:
  "AddressSpace_new 64 = Some empty_space64
   \<and> after_calls False
        [CallAddMap 0x1000 0x1000, CallSetPermissions 0x1000 0x1000 False False False]
        empty_space64 = Some no_permission_space
   \<and> in_valid_range no_permission_space 0x1000
   \<and> \<not> IsMapped no_permission_space 0x1000
   \<and> AddressSpace_new 32 = Some empty_space32
   \<and> after_calls False [CallAddMap 0xFFFFF000 0x1000] empty_space32 = Some top_page_space32
   \<and> IsMapped top_page_space32 0xFFFFFFFF
   \<and> \<not> in_valid_range top_page_space32 0xFFFFFFFF"
proof -
  have "SetPermissions rw_page_space 0x1000 0x1000 False False False = Some no_permission_space"
    by (simp add: rw_page_space_def no_permission_space_def eval_defs)
  then have "after_calls False
        [CallAddMap 0x1000 0x1000, CallSetPermissions 0x1000 0x1000 False False False]
        empty_space64 = Some no_permission_space"
    by (simp add: AddMap_rw_page)
  moreover have "AddMap empty_space32 0xFFFFF000 0x1000 = Some (Inr top_page_space32)"
    by (simp add: empty_space32_def top_page_space32_def eval_defs)
  then have "after_calls False [CallAddMap 0xFFFFF000 0x1000] empty_space32 = Some top_page_space32"
    by simp
  moreover have "in_valid_range no_permission_space 0x1000 \<and> \<not> IsMapped no_permission_space 0x1000"
    by (simp add: no_permission_space_def in_valid_range_def IsMapped_def range_defs page_defs)
  moreover have "IsMapped top_page_space32 0xFFFFFFFF \<and> \<not> in_valid_range top_page_space32 0xFFFFFFFF"
    by (simp add: top_page_space32_def in_valid_range_def IsMapped_def range_defs page_defs)
  ultimately show ?thesis using AddressSpace_new_64 AddressSpace_new_32 by blast
qed

text \<open>C8, amended. In every state reached from a new address space by calls of its member
  functions, an address, other than \<open>0xFFFFFFFF\<close> in a 32-bit space, is mapped exactly when
  it lies in a valid range of \<open>maps\<close> and its page has at least one permission; and every
  effectively readable, writable or executable address is mapped.\<close>

theorem IsMapped_in_reachable_states:
  assumes "AddressSpace_new n = Some s0" "after_calls vc cs s0 = Some s"
  shows "((addr_mask s = 0xFFFFFFFF \<longrightarrow> a \<noteq> 0xFFFFFFFF) \<longrightarrow>
            (IsMapped s a \<longleftrightarrow>
               in_valid_range s a \<and> page_has_permission s (AlignDownToPage a)))
         \<and> (effectively_readable s a \<longrightarrow> IsMapped s a)
         \<and> (effectively_writable s a \<longrightarrow> IsMapped s a)
         \<and> (effectively_executable s a \<longrightarrow> IsMapped s a)"
proof -
  have inv: "space_inv s"
    using AddressSpace_new_inv [OF assms(1)] assms(2) by (rule after_calls_inv)
  have pg: "IsMapped s a \<longleftrightarrow>
      in_valid_range s (AlignDownToPage a) \<and> page_has_permission s (AlignDownToPage a)"
    using inv by (rule space_inv_IsMapped_page)
  have down: "in_valid_range s a \<Longrightarrow> in_valid_range s (AlignDownToPage a)"
    using inv by (rule valid_range_page)
  have up: "in_valid_range s (AlignDownToPage a) \<Longrightarrow> in_valid_range s a"
    if "addr_mask s = 0xFFFFFFFF \<longrightarrow> a \<noteq> 0xFFFFFFFF"
    using inv _ that by (rule page_valid_range)
  show ?thesis
    using pg down up
    by (auto simp: effectively_readable_def effectively_writable_def effectively_executable_def
        page_has_permission_def)
qed

theorem IsMapped_in_reachable_states_witness:
  "AddressSpace_new 64 = Some empty_space64
   \<and> after_calls False [CallAddMap 0x1000 0x1000] empty_space64 = Some rw_page_space
   \<and> addr_mask rw_page_space \<noteq> 0xFFFFFFFF
   \<and> in_valid_range rw_page_space 0x1800
   \<and> page_has_permission rw_page_space (AlignDownToPage 0x1800)
   \<and> effectively_readable rw_page_space 0x1800
   \<and> IsMapped rw_page_space 0x1800"
proof -
  have run: "after_calls False [CallAddMap 0x1000 0x1000] empty_space64 = Some rw_page_space"
    by (simp add: AddMap_rw_page)
  have ev: "addr_mask rw_page_space \<noteq> 0xFFFFFFFF" "in_valid_range rw_page_space 0x1800"
    "page_has_permission rw_page_space (AlignDownToPage 0x1800)"
    "effectively_readable rw_page_space 0x1800"
    by (simp_all add: rw_page_space_def in_valid_range_def page_has_permission_def
        effectively_readable_def CanReadAligned_def range_defs page_defs)
  show ?thesis
    using IsMapped_in_reachable_states [OF AddressSpace_new_64 run, of "0x1800"] run ev
      AddressSpace_new_64
    by blast
qed

section \<open>Holes in the states that calls reach (C2)\<close>

lemma empty_range_space_built: "AddMap empty_space64 0x1000 0 = Some (Inr empty_range_space)"
  by (simp add: empty_space64_def empty_range_space_def eval_defs)

lemma space_inv_bounds:
  assumes "space_inv s"
  shows "bounds_aligned (heap s) (addr_mask s) (maps s)" "index_sound s"
  using assms
  by (auto simp: space_inv_def maps_wf_def range_wf_def bounds_aligned_def list_all_iff
      index_exact_def index_sound_def)

lemma RoundUp_ge:
  assumes "sz \<le> 0xFFFFFFFFFFFFF000"
  shows "unat sz \<le> unat (RoundUpToPage sz)"
proof -
  have le: "unat sz \<le> 18446744073709547520" using assms by (simp add: word_le_nat_alt)
  then have "unat sz + unat (4095 :: u64) < 2 ^ LENGTH(64)" by simp
  then have "unat (sz + 4095) = unat sz + unat (4095 :: u64)" by (simp only: unat_add_lem)
  then have u: "unat (sz + 4095) = unat sz + 4095" by simp
  have "RoundUpToPage sz = AlignDownToPage (sz + 4095)"
    by (simp add: RoundUpToPage_def AlignDownToPage_def kPageShift_def kPageSize_def)
  then have "unat (RoundUpToPage sz) = (unat sz + 4095) div 4096 * 4096"
    using u by (simp add: unat_AlignDown)
  moreover have "unat sz \<le> (unat sz + 4095) div 4096 * 4096"
    using mod_less_divisor [of 4096 "unat sz + 4095"] div_mult_mod_eq [of "unat sz + 4095" 4096]
    by linarith
  ultimately show ?thesis by simp
qed

lemma FindHole_step_not_Failed:
  assumes "low_limit \<le> high_base" "mn \<le> mx"
  shows "FindHole_step mn mx sz high_base low_limit \<noteq> Failed"
proof
  assume f: "FindHole_step mn mx sz high_base low_limit = Failed"
  let ?amax = "min mx high_base" and ?amin = "max mn low_limit"
  from f assms(1) have c: "\<not> high_base < mn" "\<not> low_limit \<ge> mx" "\<not> ?amax - ?amin < sz"
    "\<not> ?amax - sz \<ge> ?amin"
    by (auto simp: FindHole_step_def Let_def split: if_splits)
  have le: "?amin \<le> ?amax" using assms c(1,2) by (simp add: less_imp_le)
  then have "unat (?amax - ?amin) = unat ?amax - unat ?amin" by (rule unat_sub)
  moreover have "unat sz \<le> unat (?amax - ?amin)" using c(3) by (simp add: word_less_nat_alt)
  moreover have "unat ?amin \<le> unat ?amax" using le by (simp add: word_le_nat_alt)
  ultimately have s: "unat ?amin + unat sz \<le> unat ?amax" by linarith
  then have "sz \<le> ?amax" by (simp add: word_le_nat_alt)
  then have "unat (?amax - sz) = unat ?amax - unat sz" by (rule unat_sub)
  then have "unat ?amin \<le> unat (?amax - sz)" using s by linarith
  then show False using c(4) by (simp add: word_le_nat_alt)
qed

lemma Break_no_fit:
  assumes "FindHole_step mn mx sz high_base low_limit = Break" "snd g \<le> high_base"
  shows "\<not> fits_in_gap mn mx sz g c"
proof
  assume f: "fits_in_gap mn mx sz g c"
  have "high_base < mn" using assms(1) by (auto simp: FindHole_step_def Let_def split: if_splits)
  moreover have "mn \<le> c" using f by (simp add: fits_in_gap_def)
  moreover have "unat c \<le> unat (min mx (snd g))" using f by (simp add: fits_in_gap_def)
  moreover have "unat (min mx (snd g)) \<le> unat (snd g)" by (simp add: word_le_nat_alt [symmetric])
  ultimately show False using assms(2) by (simp add: word_le_nat_alt word_less_nat_alt)
qed

lemma FindHole_loop_complete:
  assumes "ranges_disjoint_sorted h (rev ys @ post)" "mn \<le> mx"
    "g \<in> set (FindHole_gaps h ys)" "fits_in_gap mn mx sz g c"
  shows "\<exists>hole. FindHole_loop h mn mx sz ys = Inr (Some hole)"
  using assms
proof (induction ys arbitrary: post)
  case Nil
  then show ?case by simp
next
  case (Cons rh rest)
  have wf: "list_all (\<lambda>p. base_address (h p) \<le> limit_address (h p)) (rev (rh # rest) @ post)"
    "sorted_wrt (\<lambda>p p'. limit_address (h p) \<le> base_address (h p')) (rev rest @ [rh] @ post)"
    using Cons.prems(1) by (simp_all add: ranges_disjoint_sorted_def)
  have ok: "\<forall>p \<in> set rest. base_address (h p) \<le> limit_address (h p)"
    and rh_ok: "base_address (h rh) \<le> limit_address (h rh)"
    using wf(1) by (simp_all add: list_all_iff)
  have below: "\<forall>p \<in> set rest. limit_address (h p) \<le> base_address (h rh)"
    using wf(2) by (auto simp: sorted_wrt_append)
  have gaps_below: "\<forall>g \<in> set (FindHole_gaps h rest). snd g \<le> base_address (h rh)"
    using ok below by (intro FindHole_gaps_below) simp
  have next_wf: "ranges_disjoint_sorted h (rev rest @ (rh # post))"
    using Cons.prems(1) by simp
  show ?case
  proof (cases "is_valid (h rh)")
    case False
    let ?lo = "base_address (h rh)" and ?hi = "limit_address (h rh)"
    have g: "g = (?lo, ?hi) \<or> g \<in> set (FindHole_gaps h rest)"
      using Cons.prems(3) False by simp
    have top: "snd g \<le> ?hi" using g gaps_below rh_ok by (auto intro: order_trans)
    show ?thesis
    proof (cases "FindHole_step mn mx sz ?hi ?lo")
      case Break
      then show ?thesis using Break_no_fit [OF Break top] Cons.prems(4) by simp
    next
      case Continue
      have "g \<noteq> (?lo, ?hi)" using Continue_no_fit [OF Continue] Cons.prems(4) by auto
      then have "g \<in> set (FindHole_gaps h rest)" using g by simp
      from Cons.IH [OF next_wf Cons.prems(2) this Cons.prems(4)]
      show ?thesis using Continue False by simp
    next
      case Failed
      then show ?thesis using FindHole_step_not_Failed [OF rh_ok Cons.prems(2)] by simp
    next
      case (Found hole')
      then show ?thesis using False by simp
    qed
  next
    case True
    show ?thesis
    proof (cases rest)
      case Nil
      then show ?thesis using Cons.prems(3) True by simp
    next
      case (Cons rl rest')
      let ?lo = "limit_address (h rl)" and ?hi = "base_address (h rh)"
      have g: "g = (?lo, ?hi) \<or> g \<in> set (FindHole_gaps h rest)"
        using Cons.prems(3) True Cons by simp
      have lo_hi: "?lo \<le> ?hi" using below Cons by simp
      have top: "snd g \<le> ?hi" using g gaps_below by auto
      show ?thesis
      proof (cases "FindHole_step mn mx sz ?hi ?lo")
        case Break
        then show ?thesis using Break_no_fit [OF Break top] Cons.prems(4) by simp
      next
        case Continue
        have "g \<noteq> (?lo, ?hi)" using Continue_no_fit [OF Continue] Cons.prems(4) by auto
        then have "g \<in> set (FindHole_gaps h rest)" using g by simp
        from Cons.IH [OF next_wf Cons.prems(2) this Cons.prems(4)]
        show ?thesis using Continue True Cons by simp
      next
        case Failed
        then show ?thesis using FindHole_step_not_Failed [OF lo_hi Cons.prems(2)] by simp
      next
        case (Found hole')
        then show ?thesis using True Cons by simp
      qed
    qed
  qed
qed

lemma FindHole_loop_no_failure:
  assumes "ranges_disjoint_sorted h (rev ys @ post)" "mn \<le> mx"
  shows "FindHole_loop h mn mx sz ys \<noteq> Inl e"
  using assms
proof (induction ys arbitrary: post)
  case Nil
  then show ?case by simp
next
  case (Cons rh rest)
  have wf: "list_all (\<lambda>p. base_address (h p) \<le> limit_address (h p)) (rev (rh # rest) @ post)"
    "sorted_wrt (\<lambda>p p'. limit_address (h p) \<le> base_address (h p')) (rev rest @ [rh] @ post)"
    using Cons.prems(1) by (simp_all add: ranges_disjoint_sorted_def)
  have rh_ok: "base_address (h rh) \<le> limit_address (h rh)"
    using wf(1) by (simp_all add: list_all_iff)
  have below: "\<forall>p \<in> set rest. limit_address (h p) \<le> base_address (h rh)"
    using wf(2) by (auto simp: sorted_wrt_append)
  have next_wf: "ranges_disjoint_sorted h (rev rest @ (rh # post))"
    using Cons.prems(1) by simp
  have ih: "FindHole_loop h mn mx sz rest \<noteq> Inl e"
    using Cons.IH [OF next_wf Cons.prems(2)] .
  show ?case
  proof (cases "is_valid (h rh)")
    case False
    then show ?thesis
      using ih FindHole_step_not_Failed [OF rh_ok Cons.prems(2), of sz]
      by (cases "FindHole_step mn mx sz (limit_address (h rh)) (base_address (h rh))") simp_all
  next
    case True
    show ?thesis
    proof (cases rest)
      case Nil
      then show ?thesis using True by simp
    next
      case (Cons rl rest')
      have "limit_address (h rl) \<le> base_address (h rh)" using below Cons by simp
      from FindHole_step_not_Failed [OF this Cons.prems(2), of sz]
      show ?thesis
        using ih True Cons
        by (cases "FindHole_step mn mx sz (base_address (h rh)) (limit_address (h rl))") simp_all
    qed
  qed
qed

lemma fits_in_gap_min:
  assumes "mn' \<le> mn" "fits_in_gap mn mx sz g c"
  shows "fits_in_gap mn' mx sz g c"
proof -
  have "max mn' (fst g) \<le> max mn (fst g)" using assms(1) by (intro max.mono) simp_all
  moreover have "max mn (fst g) \<le> c" using assms(2) by (simp add: fits_in_gap_def)
  ultimately have "max mn' (fst g) \<le> c" by (rule order_trans)
  then show ?thesis using assms(2) by (simp add: fits_in_gap_def)
qed

lemma fits_in_gap_bounds:
  assumes "fits_in_gap mn mx sz g c"
  shows "mn \<le> c" "fst g \<le> c" "c < mx" "unat c + unat sz \<le> unat mx"
    "unat c + unat sz \<le> unat (snd g)"
proof -
  have m: "max mn (fst g) \<le> c" and t: "unat c + unat sz \<le> unat (min mx (snd g))"
    using assms by (simp_all add: fits_in_gap_def)
  show "mn \<le> c" "fst g \<le> c" using m by simp_all
  show "c < mx" using assms by (simp add: fits_in_gap_def)
  have "unat (min mx (snd g)) \<le> unat mx" "unat (min mx (snd g)) \<le> unat (snd g)"
    by (simp_all add: word_le_nat_alt [symmetric])
  then show "unat c + unat sz \<le> unat mx" "unat c + unat sz \<le> unat (snd g)"
    using t by simp_all
qed

lemma FindHole_answers:
  assumes wf: "ranges_disjoint_sorted (heap s) (maps s)"
  shows "FindHole s mn mx sz \<noteq> Inl e"
    and "sz \<noteq> 0 \<Longrightarrow> g \<in> set (FindHole_gaps (heap s) (rev (maps s))) \<Longrightarrow>
         fits_in_gap mn (AlignDownToPage mx) (RoundUpToPage sz) g c \<Longrightarrow>
         \<exists>h. FindHole s mn mx sz = Inr (Some h)"
proof -
  let ?mn = "AlignDownToPage mn" and ?mx = "AlignDownToPage mx" and ?sz = "RoundUpToPage sz"
  have wf': "ranges_disjoint_sorted (heap s) (rev (rev (maps s)) @ [])" using wf by simp
  show "FindHole s mn mx sz \<noteq> Inl e"
    using FindHole_loop_no_failure [OF wf', of ?mn ?mx ?sz e]
    by (auto simp: FindHole_def)
  assume nz: "sz \<noteq> 0" and g: "g \<in> set (FindHole_gaps (heap s) (rev (maps s)))"
    and fit: "fits_in_gap mn ?mx ?sz g c"
  have fit': "fits_in_gap ?mn ?mx ?sz g c" using AlignDown_le [of mn] fit by (rule fits_in_gap_min)
  then have c: "?mn \<le> c" "c < ?mx" "unat c + unat ?sz \<le> unat ?mx"
    by (rule fits_in_gap_bounds)+
  have lt: "?mn < ?mx" using c(1,2) by (meson le_less_trans)
  have "unat ?mn + unat ?sz \<le> unat ?mx" using c(1,3) by (simp add: word_le_nat_alt)
  moreover have "unat (?mx - ?mn) = unat ?mx - unat ?mn"
    using lt by (intro unat_sub) simp
  ultimately have "\<not> ?sz > ?mx - ?mn" by (simp add: word_less_nat_alt)
  then have "FindHole s mn mx sz = FindHole_loop (heap s) ?mn ?mx ?sz (rev (maps s))"
    using nz lt by (simp add: FindHole_def not_le [symmetric])
  then show "\<exists>h. FindHole s mn mx sz = Inr (Some h)"
    using FindHole_loop_complete [OF wf' less_imp_le [OF lt] g fit'] by simp
qed

text \<open>The claim of C2 fails in these places. \<open>FindHole\<close> aligns \<open>min\<close> down to a page before
  it searches, so the hole can lie below \<open>min\<close>: on the empty space \<open>FindHole(0x1800, 0x4800,
  0x3000)\<close> is \<open>0x1000\<close>. It looks for the hole inside one tombstone, or between two
  neighbouring ranges, at a time, so the hole is not the highest that fits: in the empty space
  after \<open>RemoveMap(0x3000, 0x1000)\<close>, where nothing is mapped, \<open>FindHole(0, 0x5000, 0x2000)\<close>
  is \<open>0x1000\<close> although \<open>[0x3000, 0x5000)\<close> is free too. It counts in whole pages below \<open>max\<close>
  aligned down: \<open>FindHole(0, 0x5800, 0x800)\<close> on the empty space is \<open>0x4000\<close> although \<open>0x800\<close>
  bytes fit at \<open>0x5000\<close>. A size above \<open>2^64 - 4096\<close> is rounded up to \<open>0\<close>:
  \<open>FindHole(0, 0x5000, 2^64 - 1)\<close> returns \<open>0x5000\<close>, which is \<open>max\<close> and is mapped. After
  \<open>AddMap(0x1000, 0)\<close> the maps are not in order and \<open>FindHole(0, 0x10000, 0x1000)\<close> fails a
  \<open>CHECK\<close>. And in the 32-bit space, with \<open>max\<close> beyond the address mask,
  \<open>FindHole(0, 0x100000000, 0x1000)\<close> is \<open>0xFFFFEFFF\<close>, which is not on a page.\<close>

theorem FindHole_differs_from_highest_fit:
  "FindHole empty_space64 0x1800 0x4800 0x3000 = Inr (Some 0x1000)
   \<and> (0x1000 :: u64) < 0x1800
   \<and> RemoveMap empty_space64 0x3000 0x1000 = Some (Inr punched_space)
   \<and> FindHole punched_space 0 0x5000 0x2000 = Inr (Some 0x1000)
   \<and> map (is_valid \<circ> heap punched_space) (maps punched_space) = [False, False, False]
   \<and> page_to_map punched_space = Map.empty
   \<and> FindHole empty_space64 0 0x5800 0x800 = Inr (Some 0x4000)
   \<and> page_aligned 0x5000 \<and> unat (0x5000 :: u64) + unat (0x800 :: u64) \<le> unat (0x5800 :: u64)
   \<and> map (is_valid \<circ> heap empty_space64) (maps empty_space64) = [False]
   \<and> FindHole two_range_space 0 0x5000 0xFFFFFFFFFFFFFFFF = Inr (Some 0x5000)
   \<and> IsMapped two_range_space 0x5000
   \<and> AddMap empty_space64 0x1000 0 = Some (Inr empty_range_space)
   \<and> FindHole empty_range_space 0 0x10000 0x1000 = Inl CheckFailed
   \<and> FindHole empty_space32 0 0x100000000 0x1000 = Inr (Some 0xFFFFEFFF)
   \<and> \<not> page_aligned 0xFFFFEFFF"
proof -
  have "FindHole empty_space64 0x1800 0x4800 0x3000 = Inr (Some 0x1000)"
    "FindHole empty_space64 0 0x5800 0x800 = Inr (Some 0x4000)"
    "map (is_valid \<circ> heap empty_space64) (maps empty_space64) = [False]"
    by (simp_all add: empty_space64_def hole_defs page_defs range_defs)
  moreover have "FindHole punched_space 0 0x5000 0x2000 = Inr (Some 0x1000)"
    "map (is_valid \<circ> heap punched_space) (maps punched_space) = [False, False, False]"
    "page_to_map punched_space = Map.empty"
    by (simp_all add: punched_space_def hole_defs page_defs range_defs)
  moreover have "FindHole two_range_space 0 0x5000 0xFFFFFFFFFFFFFFFF = Inr (Some 0x5000)"
    "IsMapped two_range_space 0x5000"
    by (simp_all add: two_range_space_def IsMapped_def hole_defs page_defs range_defs)
  moreover have "FindHole empty_range_space 0 0x10000 0x1000 = Inl CheckFailed"
    by (simp add: empty_range_space_def hole_defs page_defs range_defs)
  moreover have "FindHole empty_space32 0 0x100000000 0x1000 = Inr (Some 0xFFFFEFFF)"
    by (simp add: empty_space32_def hole_defs page_defs range_defs)
  moreover have "(0x1000 :: u64) < 0x1800" "page_aligned 0x5000" "\<not> page_aligned 0xFFFFEFFF"
    "unat (0x5000 :: u64) + unat (0x800 :: u64) \<le> unat (0x5800 :: u64)"
    by (simp_all add: page_aligned_def)
  ultimately show ?thesis using punched_space_built empty_range_space_built by blast
qed

text \<open>C2, amended. Let the state be reached from a new address space by calls of its member
  functions, with maps that are in order and do not overlap, let \<open>max\<close> aligned down be
  within the address mask and \<open>size\<close> at most \<open>2^64 - 4096\<close>. Then \<open>FindHole(min, max, size)\<close>
  fails no \<open>CHECK\<close>; it returns a hole whenever \<open>size\<close> is not zero and the size, rounded up
  to pages, fits at some address in one gap (a tombstone, or the space between a valid range
  and the range below it) between \<open>min\<close> and \<open>max\<close> aligned down; and whenever it returns
  \<open>h\<close>: \<open>h\<close> is page-aligned, \<open>h\<close> is at or above a page-aligned \<open>min\<close>, \<open>h + size\<close> is at or
  below \<open>max\<close>, no address in \<open>[h, h + size)\<close>, with \<open>size\<close> rounded up, is mapped or lies in a
  valid range, the hole ends at the top of a gap or at \<open>max\<close> aligned down, and no address
  at which the rounded size fits in a gap is above \<open>h\<close>. On the space with valid ranges
  \<open>[0x1000, 0x2000)\<close> and \<open>[0x5000, 0x6000)\<close>, \<open>FindHole(0, 0x10000, 0x2000)\<close> returns
  \<open>0xE000\<close>.\<close>

theorem FindHole_on_sorted_maps:
  assumes "AddressSpace_new n = Some s0" "after_calls vc cs s0 = Some s"
    and "ranges_disjoint_sorted (heap s) (maps s)"
    and "AlignDownToPage mx \<le> addr_mask s"
    and "sz \<le> 0xFFFFFFFFFFFFF000"
  shows "FindHole s mn mx sz \<noteq> Inl CheckFailed
    \<and> (sz \<noteq> 0 \<and> g \<in> set (FindHole_gaps (heap s) (rev (maps s)))
         \<and> fits_in_gap mn (AlignDownToPage mx) (RoundUpToPage sz) g c
       \<longrightarrow> (\<exists>h'. FindHole s mn mx sz = Inr (Some h')))
    \<and> (FindHole s mn mx sz = Inr (Some h) \<longrightarrow>
         page_aligned h \<and> (page_aligned mn \<longrightarrow> mn \<le> h)
         \<and> unat h + unat sz \<le> unat mx
         \<and> unat h + unat (RoundUpToPage sz) \<le> unat (AlignDownToPage mx)
         \<and> (\<forall>a. h \<le> a \<and> unat a < unat h + unat (RoundUpToPage sz)
               \<longrightarrow> \<not> IsMapped s a \<and> \<not> in_valid_range s a)
         \<and> (\<exists>g' \<in> set (FindHole_gaps (heap s) (rev (maps s))).
               fst g' \<le> h
               \<and> unat h + unat (RoundUpToPage sz) = unat (min (AlignDownToPage mx) (snd g')))
         \<and> (g \<in> set (FindHole_gaps (heap s) (rev (maps s)))
               \<and> fits_in_gap mn (AlignDownToPage mx) (RoundUpToPage sz) g c
             \<longrightarrow> c \<le> h))
    \<and> FindHole two_range_space 0 0x10000 0x2000 = Inr (Some 0xE000)"
proof -
  let ?mn = "AlignDownToPage mn" and ?mx = "AlignDownToPage mx" and ?sz = "RoundUpToPage sz"
  let ?gaps = "set (FindHole_gaps (heap s) (rev (maps s)))"
  have inv: "space_inv s"
    using AddressSpace_new_inv [OF assms(1)] assms(2) by (rule after_calls_inv)
  note wf = assms(3)
  note al = space_inv_bounds [OF inv]
  have a: "FindHole s mn mx sz \<noteq> Inl CheckFailed" using wf by (rule FindHole_answers(1))
  have b: "\<exists>h'. FindHole s mn mx sz = Inr (Some h')"
    if "sz \<noteq> 0 \<and> g \<in> ?gaps \<and> fits_in_gap mn ?mx ?sz g c"
    using FindHole_answers(2) [OF wf, of sz g mn mx c] that by blast
  have c: "page_aligned h \<and> (page_aligned mn \<longrightarrow> mn \<le> h)
         \<and> unat h + unat sz \<le> unat mx \<and> unat h + unat ?sz \<le> unat ?mx
         \<and> (\<forall>a. h \<le> a \<and> unat a < unat h + unat ?sz \<longrightarrow> \<not> IsMapped s a \<and> \<not> in_valid_range s a)
         \<and> (\<exists>g' \<in> ?gaps. fst g' \<le> h \<and> unat h + unat ?sz = unat (min ?mx (snd g')))
         \<and> (g \<in> ?gaps \<and> fits_in_gap mn ?mx ?sz g c \<longrightarrow> c \<le> h)"
    if res: "FindHole s mn mx sz = Inr (Some h)"
  proof -
    note snd = FindHole_sound [OF wf al(1) assms(4) al(2) res]
    have h1: "page_aligned h" and h2: "?mn \<le> h" and h3: "unat h + unat ?sz \<le> unat ?mx"
      and h4: "\<forall>a. h \<le> a \<and> unat a < unat h + unat ?sz \<longrightarrow> \<not> IsMapped s a \<and> \<not> in_valid_range s a"
      using snd by blast+
    have "unat ?mx \<le> unat mx" using AlignDown_le [of mx] by (simp add: word_le_nat_alt)
    then have h5: "unat h + unat sz \<le> unat mx" using h3 RoundUp_ge [OF assms(5)] by linarith
    have h6: "page_aligned mn \<longrightarrow> mn \<le> h" using h2 by (auto simp: AlignDown_id)
    obtain g' where g': "g' \<in> ?gaps" "max ?mn (fst g') \<le> h"
      "unat h + unat ?sz = unat (min ?mx (snd g'))"
      using FindHole_highest(1) [OF wf res] by blast
    have h7: "\<exists>g' \<in> ?gaps. fst g' \<le> h \<and> unat h + unat ?sz = unat (min ?mx (snd g'))"
      using g' by auto
    have h8: "c \<le> h" if "g \<in> ?gaps \<and> fits_in_gap mn ?mx ?sz g c"
    proof -
      have "fits_in_gap ?mn ?mx ?sz g c"
        using AlignDown_le [of mn] that by (auto intro: fits_in_gap_min)
      then show ?thesis using FindHole_highest(2) [OF wf res] that by blast
    qed
    show ?thesis using h1 h3 h4 h5 h6 h7 h8 by blast
  qed
  show ?thesis using a b c FindHole_two_ranges by blast
qed

theorem FindHole_on_sorted_maps_witness:
  "AddressSpace_new 64 = Some empty_space64
   \<and> after_calls False [CallAddMap 0x1000 0x1000, CallAddMap 0x5000 0x1000] empty_space64
       = Some two_range_space
   \<and> ranges_disjoint_sorted (heap two_range_space) (maps two_range_space)
   \<and> AlignDownToPage 0x10000 \<le> addr_mask two_range_space
   \<and> (0x2000 :: u64) \<le> 0xFFFFFFFFFFFFF000
   \<and> FindHole_gaps (heap two_range_space) (rev (maps two_range_space))
       = [(0x6000, 0xFFFFFFFFFFFFFFFF), (0x5000, 0x5000), (0x2000, 0x5000), (0x1000, 0x1000),
          (0, 0x1000)]
   \<and> fits_in_gap 0 (AlignDownToPage 0x10000) (RoundUpToPage 0x2000) (0x2000, 0x5000) 0x3000
   \<and> FindHole two_range_space 0 0x10000 0x2000 = Inr (Some 0xE000)
   \<and> page_aligned 0xE000
   \<and> unat (0xE000 :: u64) + unat (0x2000 :: u64) \<le> unat (0x10000 :: u64)
   \<and> \<not> IsMapped two_range_space 0xE000 \<and> \<not> IsMapped two_range_space 0xFFFF
   \<and> \<not> in_valid_range two_range_space 0xFFFF
   \<and> (0x3000 :: u64) \<le> 0xE000
   \<and> AlignDownToPage 0x7000 \<le> addr_mask two_range_space
   \<and> fits_in_gap 0 (AlignDownToPage 0x7000) (RoundUpToPage 0x2000) (0x2000, 0x5000) 0x3000
   \<and> FindHole two_range_space 0 0x7000 0x2000 = Inr (Some 0x3000)"
proof -
  have run: "after_calls False [CallAddMap 0x1000 0x1000, CallAddMap 0x5000 0x1000] empty_space64
       = Some two_range_space"
    by (simp add: AddMap_rw_page two_range_space_built)
  have wf: "ranges_disjoint_sorted (heap two_range_space) (maps two_range_space)"
    by (simp add: ranges_disjoint_sorted_def two_range_space_def range_defs)
  have top: "AlignDownToPage 0x10000 \<le> addr_mask two_range_space"
    by (simp add: two_range_space_def page_defs)
  have size: "(0x2000 :: u64) \<le> 0xFFFFFFFFFFFFF000" by simp
  have gaps: "FindHole_gaps (heap two_range_space) (rev (maps two_range_space))
       = [(0x6000, 0xFFFFFFFFFFFFFFFF), (0x5000, 0x5000), (0x2000, 0x5000), (0x1000, 0x1000),
          (0, 0x1000)]"
    by (simp add: two_range_space_def range_defs)
  have fit: "fits_in_gap 0 (AlignDownToPage 0x10000) (RoundUpToPage 0x2000) (0x2000, 0x5000) 0x3000"
    by (simp add: fits_in_gap_def page_defs)
  have g: "(0x2000, 0x5000) \<in> set (FindHole_gaps (heap two_range_space) (rev (maps two_range_space)))"
    by (simp add: gaps)
  have in1: "(0xE000 :: u64) \<le> 0xFFFF \<and> unat (0xFFFF :: u64) < unat (0xE000 :: u64) + unat (RoundUpToPage 0x2000)"
    by (simp add: page_defs)
  have in2: "(0xE000 :: u64) \<le> 0xE000 \<and> unat (0xE000 :: u64) < unat (0xE000 :: u64) + unat (RoundUpToPage 0x2000)"
    by (simp add: page_defs)
  note at_input = FindHole_on_sorted_maps [where s = two_range_space and mx = "0x10000"
      and sz = "0x2000" and g = "(0x2000, 0x5000)" and mn = 0 and c = "0x3000" and h = "0xE000",
      OF AddressSpace_new_64 run wf top size]
  have top7: "AlignDownToPage 0x7000 \<le> addr_mask two_range_space"
    by (simp add: two_range_space_def page_defs)
  have fit7: "fits_in_gap 0 (AlignDownToPage 0x7000) (RoundUpToPage 0x2000) (0x2000, 0x5000) 0x3000"
    by (simp add: fits_in_gap_def page_defs)
  note at_0x7000 = FindHole_on_sorted_maps [where s = two_range_space and mx = "0x7000"
      and sz = "0x2000" and g = "(0x2000, 0x5000)" and mn = 0 and c = "0x3000" and h = "0x3000",
      OF AddressSpace_new_64 run wf top7 size]
  have "FindHole two_range_space 0 0x7000 0x2000 = Inr (Some 0x3000)"
    by (simp add: two_range_space_def hole_defs page_defs range_defs)
  then show ?thesis
    using at_input at_0x7000 AddressSpace_new_64 run wf top top7 size gaps fit fit7 g in1 in2 by blast
qed

end
